theory Spec2Isabelle
  imports Main
begin

unbundle bit_operations_syntax

section \<open>The compute-unit mask sweep of \<^verbatim>\<open>scripts/test_cu_mask.py\<close>\<close>

text \<open>
  The script computes one compute-unit mask per sweep step and hands a benchmark
  configuration holding that mask to an external runner. Python integers are unbounded,
  so masks are \<^typ>\<open>int\<close>; the 64-bit truncation happens only where the script writes
  it (\<^verbatim>\<open>& 0xffffffffffffffff\<close>).
\<close>

subsection \<open>Exceptions\<close>

datatype py_error = IndexError | NameError | OSError

subsection \<open>String formatting\<close>

text \<open>Digits of a natural number in base 16, 10 and 2, most significant first.\<close>

fun to_hex :: "nat \<Rightarrow> string" where
  "to_hex n =
     (if n < 16 then [''0123456789abcdef'' ! n]
      else to_hex (n div 16) @ [''0123456789abcdef'' ! (n mod 16)])"

fun to_dec :: "nat \<Rightarrow> string" where
  "to_dec n =
     (if n < 10 then [''0123456789'' ! n]
      else to_dec (n div 10) @ [''0123456789'' ! (n mod 10)])"

fun to_bin :: "nat \<Rightarrow> string" where
  "to_bin n =
     (if n < 2 then [''01'' ! n]
      else to_bin (n div 2) @ [''01'' ! (n mod 2)])"

declare to_hex.simps [simp del] to_dec.simps [simp del] to_bin.simps [simp del]

definition zero_pad :: "nat \<Rightarrow> string \<Rightarrow> string" where
  "zero_pad w s = replicate (w - length s) CHR ''0'' @ s"

text \<open>\<^verbatim>\<open>"%016x" % v\<close>: the sign counts towards the width of 16.\<close>

definition fmt_016x :: "int \<Rightarrow> string" where
  "fmt_016x v =
     (if v < 0 then CHR ''-'' # zero_pad 15 (to_hex (nat (- v)))
      else zero_pad 16 (to_hex (nat v)))"

text \<open>\<^verbatim>\<open>str(v)\<close> and \<^verbatim>\<open>"%d" % v\<close> of an integer.\<close>

definition str :: "int \<Rightarrow> string" where
  "str v = (if v < 0 then CHR ''-'' # to_dec (nat (- v)) else to_dec (nat v))"

text \<open>\<^verbatim>\<open>bin(v)\<close>: a negative number prints as the sign and the digits of its magnitude.\<close>

definition bin :: "int \<Rightarrow> string" where
  "bin v = (if v < 0 then ''-0b'' @ to_bin (nat (- v)) else ''0b'' @ to_bin (nat v))"

text \<open>\<^verbatim>\<open>s.count(c)\<close> for a one-character pattern.\<close>

definition count :: "string \<Rightarrow> char \<Rightarrow> nat" where
  "count s c = length (filter (\<lambda>x. x = c) s)"

text \<open>
  \<^verbatim>\<open>int(s, 16)\<close> on a string of lower-case hexadecimal digits, used to read an encoded
  mask back; \<open>None\<close> where Python raises ValueError.
\<close>

definition hex_val :: "char \<Rightarrow> nat option" where
  "hex_val c = map_of (zip ''0123456789abcdef'' [0 ..< 16]) c"

fun from_hex_acc :: "nat \<Rightarrow> string \<Rightarrow> nat option" where
  "from_hex_acc acc [] = Some acc"
| "from_hex_acc acc (c # cs) =
     (case hex_val c of None \<Rightarrow> None | Some d \<Rightarrow> from_hex_acc (16 * acc + d) cs)"

definition from_hex :: "string \<Rightarrow> nat option" where
  "from_hex s = (if s = [] then None else from_hex_acc 0 s)"

subsection \<open>The benchmark configuration\<close>

text \<open>
  The dictionaries of \<^verbatim>\<open>generate_config\<close> have fixed keys, so they are records with one
  field per key. The record stands for the JSON text that \<^verbatim>\<open>json.dumps\<close> makes of it.
\<close>

record additional_info =
  matrix_width :: int
  skip_copy :: bool

record plugin_config =
  label :: string
  log_name :: string
  filename :: string
  thread_count :: "int list"
  block_count :: int
  sm_mask :: string
  data_size :: int
  additional_info :: additional_info

record overall_config =
  name :: string
  max_iterations :: int
  max_time :: int
  cuda_device :: int
  pin_cpus :: bool
  do_warmup :: bool
  benchmarks :: "plugin_config list"

definition cu_mask_to_hex_string :: "int \<Rightarrow> string" where
  "cu_mask_to_hex_string int_cu_mask = fmt_016x (int_cu_mask AND 0xffffffffffffffff)"

definition generate_config :: "int \<Rightarrow> bool \<Rightarrow> overall_config" where
  "generate_config cu_mask striped =
     (let active_cu_count = count (bin (NOT cu_mask)) CHR ''1'';
          hex_mask = cu_mask_to_hex_string cu_mask;
          plugin_config = \<lparr>
            label = str (int active_cu_count),
            log_name = ''cu_mask_'' @ (if striped then ''striped_'' @ hex_mask else hex_mask)
                         @ ''.json'',
            filename = ''./bin/matrix_multiply.so'',
            thread_count = [32, 32],
            block_count = 1,
            sm_mask = hex_mask,
            data_size = 0,
            additional_info = \<lparr> matrix_width = 1024, skip_copy = True \<rparr> \<rparr>;
          name0 = ''Compute Unit Count vs. Performance'';
          name1 = (if striped then name0 @ '' (striped)'' else name0)
      in \<lparr> name = name1,
           max_iterations = 100,
           max_time = 0,
           cuda_device = 0,
           pin_cpus = True,
           do_warmup = True,
           benchmarks = [plugin_config] \<rparr>)"

subsection \<open>The mask allocator\<close>

text \<open>
  \<^verbatim>\<open>pysmctrl\<close> is an external module. Its two queries are parameters of the model:
  each call of \<open>get_gpc_info\<close> returns a new list of group masks, or raises.
\<close>

record pysmctrl =
  get_gpc_info :: "int \<Rightarrow> py_error + int list"
  get_tpc_info :: "int \<Rightarrow> py_error + int"

text \<open>
  A Python list index: a negative index counts from the end, an index out of range
  raises IndexError (\<open>None\<close>).
\<close>

definition py_index :: "'a list \<Rightarrow> int \<Rightarrow> nat option" where
  "py_index xs i =
     (if 0 \<le> i \<and> i < int (length xs) then Some (nat i)
      else if i < 0 \<and> - i \<le> int (length xs) then Some (nat (int (length xs) + i))
      else None)"

text \<open>
  The inner \<^verbatim>\<open>while next_bit == 0\<close> loop of the striped branch. It has no exit other
  than a set bit: \<open>None\<close> is the loop that never ends.
\<close>

partial_function (option) scan_gpcs :: "int list \<Rightarrow> nat \<Rightarrow> (py_error + int \<times> nat) option" where
  "scan_gpcs info next_gpc =
     (if length info \<le> next_gpc then Some (Inl IndexError)
      else let mask = info ! next_gpc;
               next_bit = mask AND (- mask);
               next_gpc' = (next_gpc + 1) mod length info
           in if next_bit = 0 then scan_gpcs info next_gpc'
              else Some (Inr (next_bit, next_gpc')))"

declare scan_gpcs.simps [code]

text \<open>
  The \<^verbatim>\<open>for b in range(active_cus)\<close> loop of the striped branch, on the number of
  iterations left. It returns \<open>res\<close> and the list as the loop leaves it.
\<close>

fun striped_loop :: "nat \<Rightarrow> int list \<Rightarrow> nat \<Rightarrow> int \<Rightarrow> (py_error + int \<times> int list) option" where
  "striped_loop 0 info next_gpc res = Some (Inr (res, info))"
| "striped_loop (Suc b) info next_gpc res =
     (case scan_gpcs info next_gpc of
        None \<Rightarrow> None
      | Some (Inl e) \<Rightarrow> Some (Inl e)
      | Some (Inr (next_bit, next_gpc')) \<Rightarrow>
          (case py_index info (int next_gpc' - 1) of
             None \<Rightarrow> Some (Inl IndexError)
           | Some i \<Rightarrow>
               striped_loop b (info[i := info ! i - next_bit]) next_gpc' (res OR next_bit)))"

text \<open>The \<^verbatim>\<open>for b in range(active_cus)\<close> loop of the contiguous branch.\<close>

fun contiguous_loop :: "nat \<Rightarrow> int \<Rightarrow> int" where
  "contiguous_loop 0 res = res"
| "contiguous_loop (Suc b) res = contiguous_loop b (push_bit 1 res OR 1)"

definition get_cu_mask :: "pysmctrl \<Rightarrow> int \<Rightarrow> int \<Rightarrow> bool \<Rightarrow> int \<Rightarrow> (py_error + int) option" where
  "get_cu_mask pys active_cus total_cus striped dev =
     (if \<not> striped then Some (Inr (NOT (contiguous_loop (nat active_cus) 0)))
      else case get_gpc_info pys dev of
             Inl e \<Rightarrow> Some (Inl e)
           | Inr info \<Rightarrow>
               (case striped_loop (nat active_cus) info 0 0 of
                  None \<Rightarrow> None
                | Some (Inl e) \<Rightarrow> Some (Inl e)
                | Some (Inr (res, info')) \<Rightarrow> Some (Inr (NOT res))))"

subsection \<open>The allocator with its lists in a store\<close>

text \<open>
  The same allocator once more, with the list that the topology query returns kept as an
  object in a store: the query makes a new object, and \<^verbatim>\<open>info[next_gpc-1] -= next_bit\<close>
  changes that object in place. This shows what one call leaves behind for the next.
\<close>

record store =
  objects :: "nat \<Rightarrow> int list"
  next_free :: nat

text \<open>A new list object, at an address no earlier object has.\<close>

definition new_list :: "store \<Rightarrow> int list \<Rightarrow> nat \<times> store" where
  "new_list s xs =
     (next_free s, s\<lparr>objects := (objects s)(next_free s := xs), next_free := Suc (next_free s)\<rparr>)"

text \<open>The striped \<^verbatim>\<open>for\<close> loop on the list object at address \<open>info\<close>.\<close>

fun striped_loop_st :: "nat \<Rightarrow> nat \<Rightarrow> nat \<Rightarrow> int \<Rightarrow> store \<Rightarrow> ((py_error + int) \<times> store) option" where
  "striped_loop_st 0 info next_gpc res s = Some (Inr res, s)"
| "striped_loop_st (Suc b) info next_gpc res s =
     (case scan_gpcs (objects s info) next_gpc of
        None \<Rightarrow> None
      | Some (Inl e) \<Rightarrow> Some (Inl e, s)
      | Some (Inr (next_bit, next_gpc')) \<Rightarrow>
          (case py_index (objects s info) (int next_gpc' - 1) of
             None \<Rightarrow> Some (Inl IndexError, s)
           | Some i \<Rightarrow>
               striped_loop_st b info next_gpc' (res OR next_bit)
                 (s\<lparr>objects := (objects s)(info := (objects s info)[i := objects s info ! i - next_bit])\<rparr>)))"

definition get_cu_mask_st ::
    "pysmctrl \<Rightarrow> int \<Rightarrow> int \<Rightarrow> bool \<Rightarrow> int \<Rightarrow> store \<Rightarrow> ((py_error + int) \<times> store) option" where
  "get_cu_mask_st pys active_cus total_cus striped dev s =
     (if \<not> striped then Some (Inr (NOT (contiguous_loop (nat active_cus) 0)), s)
      else case get_gpc_info pys dev of
             Inl e \<Rightarrow> Some (Inl e, s)
           | Inr xs \<Rightarrow>
               (case new_list s xs of
                  (info, s') \<Rightarrow>
                    (case striped_loop_st (nat active_cus) info 0 0 s' of
                       None \<Rightarrow> None
                     | Some (Inl e, s'') \<Rightarrow> Some (Inl e, s'')
                     | Some (Inr res, s'') \<Rightarrow> Some (Inr (NOT res), s''))))"

subsection \<open>Running one configuration\<close>

text \<open>
  What the script does to the outside, in order: a line printed, a call of the allocator,
  a configuration delivered to a started runner.
\<close>

datatype event = Print string | Alloc int | Runner overall_config

text \<open>
  The runner is external: for a configuration it either cannot be started (\<open>Inl\<close>, the
  exception of \<^verbatim>\<open>Popen\<close>) or exits with a status. The module-level names that
  \<^verbatim>\<open>run_process\<close> reads are the record \<open>globals\<close>; \<open>None\<close> is a name that is not bound.
\<close>

type_synonym runner = "overall_config \<Rightarrow> py_error + int"

record globals =
  global_cu_mask :: "int option"

definition run_process :: "runner \<Rightarrow> globals \<Rightarrow> int \<Rightarrow> bool \<Rightarrow> event list \<times> py_error option" where
  "run_process run g int_cu_mask striped =
     (case global_cu_mask g of
        None \<Rightarrow> ([], Some NameError)
      | Some cu_mask \<Rightarrow>
          (let config = generate_config cu_mask striped;
               out = [Print (''Starting test with CU mask '' @ cu_mask_to_hex_string int_cu_mask)]
           in case run config of
                Inl e \<Rightarrow> (out, Some e)
              | Inr status \<Rightarrow> (out @ [Runner config], None)))"

subsection \<open>The sweep\<close>

record args =
  cu_count :: "int option"
  start_count :: int
  stripe :: bool
  device :: int

datatype outcome = Finished | Exited int | Raised py_error | Never_returns

text \<open>A module object is true in a condition.\<close>

definition truthy :: "pysmctrl \<Rightarrow> bool" where
  "truthy pys = True"

text \<open>The body of \<^verbatim>\<open>for active_cus in range(args.start_count, cu_count)\<close>.\<close>

fun sweep :: "pysmctrl \<Rightarrow> runner \<Rightarrow> args \<Rightarrow> int \<Rightarrow> globals \<Rightarrow> int list \<Rightarrow> event list \<times> outcome" where
  "sweep pys run a total_cus g [] = ([], Finished)"
| "sweep pys run a total_cus g (active_cus # rest) =
     (let out = [Print (''Running test for '' @ str active_cus @ '' (+ 1) active CUs.''),
                 Alloc (active_cus + 1)]
      in case get_cu_mask pys (active_cus + 1) total_cus (stripe a) (device a) of
           None \<Rightarrow> (out, Never_returns)
         | Some (Inl e) \<Rightarrow> (out, Raised e)
         | Some (Inr m) \<Rightarrow>
             (let g' = g\<lparr>global_cu_mask := Some m\<rparr>
              in case run_process run g' m (stripe a) of
                   (evs, Some e) \<Rightarrow> (out @ evs, Raised e)
                 | (evs, None) \<Rightarrow>
                     (case sweep pys run a total_cus g' rest of
                        (later, res) \<Rightarrow> (out @ evs @ [Print [CHR 0x0A]] @ later, res))))"

text \<open>The statements under \<^verbatim>\<open>if __name__ == "__main__"\<close>, after the arguments are parsed.\<close>

definition main :: "pysmctrl \<Rightarrow> runner \<Rightarrow> args \<Rightarrow> event list \<times> outcome" where
  "main pys run a =
     (case (case cu_count a of
              Some c \<Rightarrow>
                if c \<noteq> 0
                then Inr (if c \<le> 0 then [Print ''The CU count must be positive.''] else [], c)
                else (case get_tpc_info pys (device a) of
                        Inl e \<Rightarrow> Inl e
                      | Inr n \<Rightarrow> Inr ([Print (''Auto-detected a cu_count of '' @ str n)], n))
            | None \<Rightarrow>
                (case get_tpc_info pys (device a) of
                   Inl e \<Rightarrow> Inl e
                 | Inr n \<Rightarrow> Inr ([Print (''Auto-detected a cu_count of '' @ str n)], n))) of
        Inl e \<Rightarrow> ([], Raised e)
      | Inr (out1, total_cus) \<Rightarrow>
          (case get_tpc_info pys (device a) of
             Inl e \<Rightarrow> (out1, Raised e)
           | Inr n \<Rightarrow>
               (let out2 = (if truthy pys \<and> total_cus > n
                            then [Print ''The CU count must not exceed the number of available TPCs.'']
                            else [])
                in if stripe a \<and> \<not> truthy pys
                   then (out1 @ out2 @
                         [Print ''To use accurate striping, pysmctrl must be available and nvdebug must be loaded''],
                         Exited 1)
                   else (case sweep pys run a total_cus \<lparr>global_cu_mask = None\<rparr>
                                [start_count a .. total_cus - 1] of
                           (later, res) \<Rightarrow> (out1 @ out2 @ later, res)))))"

text \<open>The calls in a trace: what is left when the printed lines are dropped.\<close>

fun is_call :: "event \<Rightarrow> bool" where
  "is_call (Print s) = False"
| "is_call (Alloc n) = True"
| "is_call (Runner c) = True"

definition calls :: "event list \<Rightarrow> event list" where
  "calls evs = filter is_call evs"

subsection \<open>Reading a mask\<close>

text \<open>The number of set bits of a natural number.\<close>

fun bit_count :: "nat \<Rightarrow> nat" where
  "bit_count n = (if n = 0 then 0 else n mod 2 + bit_count (n div 2))"

declare bit_count.simps [simp del]

text \<open>
  The mask that \<open>get_cu_mask\<close> returns is the complement of the units it selected. The
  units it enables are the positions of the set bits of that complement, within the 64
  bits that reach the runner.
\<close>

definition enabled_units :: "int \<Rightarrow> nat list" where
  "enabled_units cu_mask = filter (bit (NOT cu_mask AND 0xffffffffffffffff)) [0 ..< 64]"

subsection \<open>The topology a striped allocation starts from\<close>

text \<open>The number of units of a topology: the set bits of its group masks, summed.\<close>

definition total_units :: "int list \<Rightarrow> nat" where
  "total_units info = sum_list (map (\<lambda>m. bit_count (nat m)) info)"

text \<open>No unit belongs to two groups: the masks at different places share no bit.\<close>

definition disjoint_groups :: "int list \<Rightarrow> bool" where
  "disjoint_groups info = sorted_wrt (\<lambda>m m'. m AND m' = 0) info"

text \<open>The number of units of a group that a returned mask selects.\<close>

definition assigned :: "int \<Rightarrow> int \<Rightarrow> nat" where
  "assigned cu_mask gpc_mask = bit_count (nat (NOT cu_mask AND gpc_mask))"

subsection \<open>The state of the striped loop\<close>

text \<open>
  The proofs about the striped loop read a mask as the set of its bit positions and
  compare the list the loop holds with the list it started from.
\<close>

definition unit_set :: "int \<Rightarrow> nat set" where
  "unit_set m = {k. bit m k}"

definition taken :: "int list \<Rightarrow> int list \<Rightarrow> nat \<Rightarrow> nat set" where
  "taken info0 info i = unit_set (info0 ! i) - unit_set (info ! i)"

text \<open>
  What holds of the list and of \<open>res\<close> between two iterations: \<open>res\<close> holds exactly the
  units the groups have given, and each group gave its lowest units.
\<close>

definition units_inv :: "int list \<Rightarrow> int list \<Rightarrow> int \<Rightarrow> bool" where
  "units_inv info0 info res \<longleftrightarrow>
     length info = length info0 \<and> 0 \<le> res \<and>
     unit_set res = (\<Union>i<length info0. taken info0 info i) \<and>
     (\<forall>i<length info0.
        0 \<le> info ! i \<and> 0 \<le> info0 ! i \<and> unit_set (info ! i) \<subseteq> unit_set (info0 ! i) \<and>
        (\<forall>p\<in>taken info0 info i. \<forall>q\<in>unit_set (info ! i). p < q))"

text \<open>
  What holds whenever the loop is about to look at group \<open>g\<close>, in round \<open>c\<close>: the groups
  before \<open>g\<close> have given \<open>c + 1\<close> units or all they had, the others \<open>c\<close> units or all they
  had.
\<close>

definition round_inv :: "int list \<Rightarrow> int list \<Rightarrow> nat \<Rightarrow> nat \<Rightarrow> bool" where
  "round_inv info0 info g c \<longleftrightarrow>
     g < length info0 \<and>
     (\<forall>i<length info0.
        card (taken info0 info i) =
          min (card (unit_set (info0 ! i))) (if i < g then Suc c else c))"

definition spread_inv :: "int list \<Rightarrow> int list \<Rightarrow> nat \<Rightarrow> int \<Rightarrow> nat \<Rightarrow> bool" where
  "spread_inv info0 info g res c \<longleftrightarrow> units_inv info0 info res \<and> round_inv info0 info g c"

section \<open>Properties\<close>

subsection \<open>The hexadecimal encoding of a mask\<close>

lemma upt16: "[0 ..< 16] = [0,1,2,3,4,5,6,7,8,9,10,11,12,13,14,15::nat]"
  by (simp add: upt_rec [of _ "numeral _"] upt_rec [of _ "Suc _"])

lemma hex_val_digit: "d < 16 \<Longrightarrow> hex_val (''0123456789abcdef'' ! d) = Some d"
proof -
  assume "d < 16"
  then have "d \<in> set [0 ..< 16]" by simp
  then show ?thesis
    unfolding hex_val_def upt16 by auto
qed

lemma hex_val_zero: "hex_val CHR ''0'' = Some 0"
  by (simp add: hex_val_def upt16)

lemma hex_digit_in: "d < 16 \<Longrightarrow> ''0123456789abcdef'' ! d \<in> set ''0123456789abcdef''"
  by (rule nth_mem) simp

lemma to_hex_chars: "set (to_hex n) \<subseteq> set ''0123456789abcdef''"
proof (induction n rule: to_hex.induct)
  case (1 n)
  show ?case
  proof (cases "n < 16")
    case True
    then show ?thesis using hex_digit_in [of n] by (subst to_hex.simps) simp
  next
    case False
    have "n mod 16 < 16" by simp
    then show ?thesis using False 1 hex_digit_in [of "n mod 16"]
      by (subst to_hex.simps) simp
  qed
qed

lemma length_to_hex: "n < 16 ^ k \<Longrightarrow> 0 < k \<Longrightarrow> length (to_hex n) \<le> k"
proof (induction n arbitrary: k rule: to_hex.induct)
  case (1 n)
  show ?case
  proof (cases "n < 16")
    case True
    then show ?thesis using 1(3) by (subst to_hex.simps) simp
  next
    case False
    then obtain j where k: "k = Suc j" using 1(3) by (cases k) auto
    have "0 < j" using False 1(2) k by (cases j) auto
    moreover have "n div 16 < 16 ^ j" using 1(2) k
      by (simp add: less_mult_imp_div_less mult.commute)
    ultimately have "length (to_hex (n div 16)) \<le> j" using 1(1) [OF False] by blast
    then show ?thesis using False k by (subst to_hex.simps) simp
  qed
qed

lemma from_hex_acc_snoc:
  "from_hex_acc acc (xs @ [c]) =
     (case from_hex_acc acc xs of None \<Rightarrow> None
      | Some a \<Rightarrow> (case hex_val c of None \<Rightarrow> None | Some d \<Rightarrow> Some (16 * a + d)))"
  by (induction xs arbitrary: acc) (auto split: option.splits)

lemma from_hex_acc_to_hex: "from_hex_acc acc (to_hex n) = Some (16 ^ length (to_hex n) * acc + n)"
proof (induction n rule: to_hex.induct)
  case (1 n)
  show ?case
  proof (cases "n < 16")
    case True
    then show ?thesis by (subst (1 2) to_hex.simps) (simp add: hex_val_digit)
  next
    case False
    have m: "n mod 16 < 16" by simp
    show ?thesis using False 1 [OF False] hex_val_digit [OF m]
      by (subst (1 2) to_hex.simps) (simp add: from_hex_acc_snoc algebra_simps)
  qed
qed

lemma from_hex_acc_zeros: "from_hex_acc 0 (replicate k CHR ''0'' @ s) = from_hex_acc 0 s"
  by (induction k) (simp_all add: hex_val_zero)

lemma to_hex_nonempty: "to_hex n \<noteq> []"
  by (subst to_hex.simps) simp

lemma and_ffff: "(m :: int) AND 0xffffffffffffffff = m mod 2 ^ 64"
proof -
  have "(0xffffffffffffffff :: int) = mask 64" by (simp add: mask_eq_exp_minus_1)
  then have "m AND 0xffffffffffffffff = take_bit 64 m" by (simp only: take_bit_eq_mask)
  then show ?thesis by (simp only: take_bit_eq_mod)
qed

lemma hex_string_eq: "cu_mask_to_hex_string m = zero_pad 16 (to_hex (nat (m mod 2 ^ 64)))"
proof -
  have nn: "\<not> m mod 2 ^ 64 < 0" by simp
  show ?thesis
    unfolding cu_mask_to_hex_string_def and_ffff fmt_016x_def using nn by (simp only: if_False)
qed

lemma hex_string_facts:
  "length (cu_mask_to_hex_string m) = 16"
  "set (cu_mask_to_hex_string m) \<subseteq> set ''0123456789abcdef''"
  "from_hex (cu_mask_to_hex_string m) = Some (nat (m mod 2 ^ 64))"
proof -
  define v where "v = nat (m mod 2 ^ 64)"
  have v64: "v < 16 ^ 16" unfolding v_def by (simp add: nat_less_iff)
  have len: "length (to_hex v) \<le> 16" using length_to_hex [OF v64] by simp
  have s: "cu_mask_to_hex_string m = zero_pad 16 (to_hex v)"
    by (simp only: hex_string_eq v_def)
  show "length (cu_mask_to_hex_string m) = 16" using len by (simp add: s zero_pad_def)
  show "set (cu_mask_to_hex_string m) \<subseteq> set ''0123456789abcdef''"
    using to_hex_chars [of v] by (auto simp: s zero_pad_def)
  show "from_hex (cu_mask_to_hex_string m) = Some (nat (m mod 2 ^ 64))"
    using to_hex_nonempty [of v]
    by (simp add: s from_hex_def zero_pad_def from_hex_acc_zeros from_hex_acc_to_hex v_def)
qed

text \<open>
  C6. For every integer mask, negative ones included, \<open>cu_mask_to_hex_string\<close> gives
  exactly 16 characters, all of them hexadecimal digits, and reading the string back in
  base 16 gives the mask truncated to 64 bits.
\<close>

theorem hex_round_trip:
  "length (cu_mask_to_hex_string m) = 16
   \<and> set (cu_mask_to_hex_string m) \<subseteq> set ''0123456789abcdef''
   \<and> from_hex (cu_mask_to_hex_string m) = Some (nat (m mod 2 ^ 64))"
  using hex_string_facts [of m] by blast

theorem hex_round_trip_witness:
  "cu_mask_to_hex_string (- 8) = ''fffffffffffffff8''
   \<and> from_hex ''fffffffffffffff8'' = Some 18446744073709551608"
proof -
  have e: "cu_mask_to_hex_string (- 8) = ''fffffffffffffff8''"
    by (simp add: cu_mask_to_hex_string_def fmt_016x_def zero_pad_def to_hex.simps)
  show ?thesis using hex_round_trip [of "- 8"] by (simp add: e)
qed

subsection \<open>The contiguous allocator\<close>

lemma contiguous_loop_eq: "contiguous_loop b res = push_bit b res OR mask b"
proof (induction b arbitrary: res)
  case 0
  then show ?case by simp
next
  case (Suc b)
  have "push_bit b (push_bit 1 res OR 1) OR mask b = push_bit (Suc b) res OR mask (Suc b)"
    by (rule bit_eqI) (auto simp: bit_simps less_Suc_eq)
  then show ?case using Suc by simp
qed

lemma contiguous_mask: "contiguous_loop b 0 = mask b"
  by (simp add: contiguous_loop_eq)

lemma enabled_units_not_mask: "b \<le> 64 \<Longrightarrow> enabled_units (NOT (mask b)) = [0 ..< b]"
proof -
  assume b: "b \<le> 64"
  have m: "(0xffffffffffffffff :: int) = mask 64" by (simp add: mask_eq_exp_minus_1)
  have "filter (bit (mask b AND (mask 64 :: int))) [0 ..< 64] = filter (\<lambda>i. i < b) [0 ..< 64]"
    using b by (intro filter_cong) (auto simp: bit_simps)
  also have "\<dots> = [0 ..< b]"
  proof -
    have "[0 ..< 64] = [0 ..< b] @ [b ..< 64]" using b by (metis le0 upt_add_eq_append le_Suc_ex)
    then show ?thesis by simp
  qed
  finally show ?thesis by (simp add: enabled_units_def m)
qed

text \<open>
  C4. For every \<open>n\<close> with \<open>0 \<le> n \<le> total_cus \<le> 64\<close> the contiguous allocator returns a
  mask whose complement, truncated to 64 bits, has its set bits at exactly the positions
  \<open>0, \<dots>, n - 1\<close>, so exactly \<open>n\<close> of them.
\<close>

theorem contiguous_low_bits:
  assumes "0 \<le> n" "n \<le> total_cus" "total_cus \<le> 64"
  shows "\<exists>r. get_cu_mask pys n total_cus False dev = Some (Inr r)
             \<and> enabled_units r = [0 ..< nat n]
             \<and> length (enabled_units r) = nat n"
proof -
  have "nat n \<le> 64" using assms by simp
  then show ?thesis
    by (simp add: get_cu_mask_def contiguous_mask enabled_units_not_mask)
qed


theorem contiguous_low_bits_witness:
  "get_cu_mask \<lparr>get_gpc_info = (\<lambda>d. Inl OSError), get_tpc_info = (\<lambda>d. Inl OSError)\<rparr> 3 4 False 0
     = Some (Inr (- 8))
   \<and> enabled_units (- 8) = [0, 1, 2]"
proof -
  have g: "get_cu_mask \<lparr>get_gpc_info = (\<lambda>d. Inl OSError), get_tpc_info = (\<lambda>d. Inl OSError)\<rparr> 3 4 False 0
     = Some (Inr (- 8))"
    by (simp add: get_cu_mask_def numeral_3_eq_3)
  have u: "[0 ..< nat 3] = [0, 1, 2]" by code_simp
  obtain r where r: "get_cu_mask \<lparr>get_gpc_info = (\<lambda>d. Inl OSError), get_tpc_info = (\<lambda>d. Inl OSError)\<rparr> 3 4 False 0 = Some (Inr r)"
      "enabled_units r = [0 ..< nat 3]"
    using contiguous_low_bits [of 3 4 "\<lparr>get_gpc_info = (\<lambda>d. Inl OSError), get_tpc_info = (\<lambda>d. Inl OSError)\<rparr>" 0]
    by auto
  from r(1) g have "r = - 8" by simp
  with r(2) u g show ?thesis by (simp only: simp_thms)
qed

subsection \<open>The sweep\<close>

lemma get_cu_mask_contiguous:
  "get_cu_mask pys n total_cus False dev = Some (Inr (NOT (mask (nat n))))"
  by (simp add: get_cu_mask_def contiguous_mask)

lemma run_process_launched:
  "run (generate_config m s) = Inr st \<Longrightarrow>
   run_process run (g\<lparr>global_cu_mask := Some m\<rparr>) p s =
     ([Print (''Starting test with CU mask '' @ cu_mask_to_hex_string p),
       Runner (generate_config m s)], None)"
  by (simp add: run_process_def)

lemma sweep_calls:
  assumes "\<forall>ac \<in> set acs. get_cu_mask pys (ac + 1) total_cus (stripe a) (device a)
                              = Some (Inr (msk (ac + 1)))"
    and "\<forall>c. \<exists>st. run c = Inr st"
  shows "calls (fst (sweep pys run a total_cus g acs)) =
           concat (map (\<lambda>ac. [Alloc (ac + 1), Runner (generate_config (msk (ac + 1)) (stripe a))]) acs)
         \<and> snd (sweep pys run a total_cus g acs) = Finished"
  using assms(1)
proof (induction acs arbitrary: g)
  case Nil
  show ?case by (simp add: calls_def)
next
  case (Cons ac acs)
  from assms(2) obtain st where st: "run (generate_config (msk (ac + 1)) (stripe a)) = Inr st"
    by blast
  have al: "get_cu_mask pys (ac + 1) total_cus (stripe a) (device a) = Some (Inr (msk (ac + 1)))"
    using Cons.prems by simp
  have ih: "calls (fst (sweep pys run a total_cus (g\<lparr>global_cu_mask := Some (msk (ac + 1))\<rparr>) acs)) =
           concat (map (\<lambda>ac. [Alloc (ac + 1), Runner (generate_config (msk (ac + 1)) (stripe a))]) acs)
         \<and> snd (sweep pys run a total_cus (g\<lparr>global_cu_mask := Some (msk (ac + 1))\<rparr>) acs) = Finished"
    using Cons.IH Cons.prems by simp
  show ?case
    using ih
    by (auto simp: al calls_def
          run_process_launched [where run = run and m = "msk (ac + 1)" and s = "stripe a", OF st]
          split: prod.splits)
qed

lemma main_supplied:
  assumes "cu_count a = Some t" "t \<noteq> 0" "get_tpc_info pys (device a) = Inr hw"
  shows "main pys run a =
           (case sweep pys run a t \<lparr>global_cu_mask = None\<rparr> [start_count a .. t - 1] of
              (later, res) \<Rightarrow>
                ((if t \<le> 0 then [Print ''The CU count must be positive.''] else []) @
                 (if t > hw then [Print ''The CU count must not exceed the number of available TPCs.'']
                  else []) @ later, res))"
  using assms by (simp add: main_def truthy_def split: prod.splits)

lemma main_calls:
  assumes "cu_count a = Some t" "t \<noteq> 0" "get_tpc_info pys (device a) = Inr hw"
    and "\<forall>ac. start_count a \<le> ac \<and> ac < t \<longrightarrow>
              get_cu_mask pys (ac + 1) t (stripe a) (device a) = Some (Inr (msk (ac + 1)))"
    and "\<forall>c. \<exists>st. run c = Inr st"
  shows "calls (fst (main pys run a)) =
           concat (map (\<lambda>ac. [Alloc (ac + 1), Runner (generate_config (msk (ac + 1)) (stripe a))])
                       [start_count a .. t - 1])
         \<and> snd (main pys run a) = Finished"
proof -
  have "\<forall>ac \<in> set [start_count a .. t - 1].
          get_cu_mask pys (ac + 1) t (stripe a) (device a) = Some (Inr (msk (ac + 1)))"
    using assms(4) by simp
  from sweep_calls [OF this assms(5), of "\<lparr>global_cu_mask = None\<rparr>"]
  obtain later where "sweep pys run a t \<lparr>global_cu_mask = None\<rparr> [start_count a .. t - 1]
                        = (later, Finished)"
      "calls later = concat (map (\<lambda>ac. [Alloc (ac + 1),
                                 Runner (generate_config (msk (ac + 1)) (stripe a))])
                       [start_count a .. t - 1])"
    by (cases "sweep pys run a t \<lparr>global_cu_mask = None\<rparr> [start_count a .. t - 1]") auto
  then show ?thesis
    by (simp add: main_supplied [OF assms(1-3)] calls_def)
qed

lemma upto_2_4: "[2 .. 5 - 1] = [2, 3, 4 :: int]"
  by code_simp

lemma not_mask_vals:
  "NOT (mask (nat 1)) = (- 2 :: int)" "NOT (mask (nat 2)) = (- 4 :: int)"
  "NOT (mask (nat 3)) = (- 8 :: int)" "NOT (mask (nat 4)) = (- 16 :: int)"
  "NOT (mask (nat 5)) = (- 32 :: int)"
  by (simp_all add: mask_eq_exp_minus_1 not_int_def)

lemma main_detected:
  assumes "cu_count a = None \<or> cu_count a = Some 0" "get_tpc_info pys (device a) = Inr hw"
  shows "main pys run a =
           (case sweep pys run a hw \<lparr>global_cu_mask = None\<rparr> [start_count a .. hw - 1] of
              (later, res) \<Rightarrow> (Print (''Auto-detected a cu_count of '' @ str hw) # later, res))"
  using assms by (auto simp: main_def truthy_def split: prod.splits)

lemma main_calls_detected:
  assumes "cu_count a = None \<or> cu_count a = Some 0" "get_tpc_info pys (device a) = Inr hw"
    and "\<forall>ac. start_count a \<le> ac \<and> ac < hw \<longrightarrow>
              get_cu_mask pys (ac + 1) hw (stripe a) (device a) = Some (Inr (msk (ac + 1)))"
    and "\<forall>c. \<exists>st. run c = Inr st"
  shows "calls (fst (main pys run a)) =
           concat (map (\<lambda>ac. [Alloc (ac + 1), Runner (generate_config (msk (ac + 1)) (stripe a))])
                       [start_count a .. hw - 1])
         \<and> snd (main pys run a) = Finished"
proof -
  have "\<forall>ac \<in> set [start_count a .. hw - 1].
          get_cu_mask pys (ac + 1) hw (stripe a) (device a) = Some (Inr (msk (ac + 1)))"
    using assms(3) by simp
  from sweep_calls [OF this assms(4), of "\<lparr>global_cu_mask = None\<rparr>"]
  obtain later where "sweep pys run a hw \<lparr>global_cu_mask = None\<rparr> [start_count a .. hw - 1]
                        = (later, Finished)"
      "calls later = concat (map (\<lambda>ac. [Alloc (ac + 1),
                                 Runner (generate_config (msk (ac + 1)) (stripe a))])
                       [start_count a .. hw - 1])"
    by (cases "sweep pys run a hw \<lparr>global_cu_mask = None\<rparr> [start_count a .. hw - 1]") auto
  then show ?thesis
    by (simp add: main_detected [OF assms(1,2)] calls_def)
qed

text \<open>
  C3. Let \<open>t\<close> be the count the sweep uses: the one given on the command line, or the
  one the device reports when none (or 0) is given. When every allocation of the range
  returns and the runner starts every time, the sweep goes through
  \<open>active_cus = start_count, \<dots>, t - 1\<close> in ascending order; each step asks the allocator for
  \<open>active_cus + 1\<close> units and then delivers the configuration of that step's mask to the
  runner once, before the next step asks. For \<open>start_count = 2\<close> and \<open>t = 5\<close> these are three
  steps, for 3, 4 and 5 units.
\<close>

theorem sweep_order:
  assumes "get_tpc_info pys (device a) = Inr hw"
    and "t = (case cu_count a of None \<Rightarrow> hw | Some c \<Rightarrow> if c \<noteq> 0 then c else hw)"
    and "\<forall>ac. start_count a \<le> ac \<and> ac < t \<longrightarrow>
              get_cu_mask pys (ac + 1) t (stripe a) (device a) = Some (Inr (msk (ac + 1)))"
    and "\<forall>c. \<exists>st. run c = Inr st"
  shows "calls (fst (main pys run a)) =
           concat (map (\<lambda>ac. [Alloc (ac + 1), Runner (generate_config (msk (ac + 1)) (stripe a))])
                       [start_count a .. t - 1])
         \<and> snd (main pys run a) = Finished"
proof (cases "cu_count a = None \<or> cu_count a = Some 0")
  case True
  then have "t = hw" using assms(2) by auto
  then show ?thesis using main_calls_detected [OF True assms(1) _ assms(4), of msk] assms(3) by simp
next
  case False
  then obtain c where c: "cu_count a = Some c" "c \<noteq> 0" by auto
  then have "t = c" using assms(2) by simp
  then show ?thesis using main_calls [OF c assms(1) _ assms(4), of msk] assms(3) by simp
qed

theorem sweep_order_witness:
  "calls (fst (main \<lparr>get_gpc_info = (\<lambda>d. Inr [15, 240]), get_tpc_info = (\<lambda>d. Inr 8)\<rparr>
                    (\<lambda>c. Inr 0)
                    \<lparr>cu_count = Some 5, start_count = 2, stripe = False, device = 0\<rparr>)) =
     [Alloc 3, Runner (generate_config (- 8) False),
      Alloc 4, Runner (generate_config (- 16) False),
      Alloc 5, Runner (generate_config (- 32) False)]"
proof -
  let ?P = "\<lparr>get_gpc_info = (\<lambda>d. Inr [15, 240]), get_tpc_info = (\<lambda>d. Inr 8)\<rparr>"
  let ?A = "\<lparr>cu_count = Some 5, start_count = 2, stripe = False, device = 0\<rparr>"
  have h1: "get_tpc_info ?P (device ?A) = Inr 8" by simp
  have h2: "(5 :: int) = (case cu_count ?A of None \<Rightarrow> 8 | Some c \<Rightarrow> if c \<noteq> 0 then c else 8)"
    by simp
  have h3: "\<forall>ac. start_count ?A \<le> ac \<and> ac < 5 \<longrightarrow>
              get_cu_mask ?P (ac + 1) 5 (stripe ?A) (device ?A)
                = Some (Inr ((\<lambda>n. NOT (mask (nat n))) (ac + 1)))"
    by (simp add: get_cu_mask_contiguous)
  have h4: "\<forall>c. \<exists>st. (\<lambda>c :: overall_config. (Inr 0 :: py_error + int)) c = Inr st" by simp
  have "calls (fst (main ?P (\<lambda>c. Inr 0) ?A)) =
           concat (map (\<lambda>ac. [Alloc (ac + 1),
                               Runner (generate_config ((\<lambda>n. NOT (mask (nat n))) (ac + 1)) (stripe ?A))])
                       [start_count ?A .. 5 - 1])"
    using sweep_order [OF h1 h2 h3 h4] by simp
  then show ?thesis
    using not_mask_vals by (simp add: upto_2_4)
qed

lemma run_process_status_erased:
  "run_process run g p s
     = run_process (\<lambda>c. case run c of Inl e \<Rightarrow> Inl e | Inr st \<Rightarrow> Inr 0) g p s"
proof (cases "global_cu_mask g")
  case None
  then show ?thesis by (simp add: run_process_def)
next
  case (Some m)
  then show ?thesis
    by (cases "run (generate_config m s)") (simp_all add: run_process_def)
qed

lemma sweep_status_erased:
  "sweep pys run a t g acs
     = sweep pys (\<lambda>c. case run c of Inl e \<Rightarrow> Inl e | Inr st \<Rightarrow> Inr 0) a t g acs"
proof (induction acs arbitrary: g)
  case Nil
  show ?case by simp
next
  case (Cons ac acs)
  show ?case
    by (simp add: Cons.IH run_process_status_erased [of run]
          cong: option.case_cong sum.case_cong)
qed

lemma run_process_not_started:
  "run (generate_config m s) = Inl e \<Longrightarrow>
   run_process run (g\<lparr>global_cu_mask := Some m\<rparr>) p s =
     ([Print (''Starting test with CU mask '' @ cu_mask_to_hex_string p)], Some e)"
  by (simp add: run_process_def)

text \<open>
  C9, as the code has it. The exit status of the runner is never read: whatever statuses
  the runner exits with, zero or not, the sweep prints the same lines, makes the same
  calls and ends the same way as with a runner that starts on the same configurations
  and always exits with status 0. Only a runner that cannot be started stops the sweep:
  in the step where it fails to start, the exception ends the sweep and no later step
  asks for a mask.
\<close>

theorem exit_status_ignored:
  "main pys run a = main pys (\<lambda>c. case run c of Inl e \<Rightarrow> Inl e | Inr st \<Rightarrow> Inr 0) a
   \<and> (get_cu_mask pys (ac + 1) t (stripe a) (device a) = Some (Inr m) \<longrightarrow>
        run (generate_config m (stripe a)) = Inl e \<longrightarrow>
        calls (fst (sweep pys run a t g (ac # rest))) = [Alloc (ac + 1)]
        \<and> snd (sweep pys run a t g (ac # rest)) = Raised e)"
proof (intro conjI impI)
  show "main pys run a = main pys (\<lambda>c. case run c of Inl e \<Rightarrow> Inl e | Inr st \<Rightarrow> Inr 0) a"
    unfolding main_def sweep_status_erased [of pys run a] by (rule refl)
next
  assume al: "get_cu_mask pys (ac + 1) t (stripe a) (device a) = Some (Inr m)"
    and st: "run (generate_config m (stripe a)) = Inl e"
  show "calls (fst (sweep pys run a t g (ac # rest))) = [Alloc (ac + 1)]"
    by (simp add: al calls_def
          run_process_not_started [where run = run and m = m and s = "stripe a", OF st])
  show "snd (sweep pys run a t g (ac # rest)) = Raised e"
    by (simp add: al
          run_process_not_started [where run = run and m = m and s = "stripe a", OF st])
qed

theorem exit_status_ignored_witness:
  "main \<lparr>get_gpc_info = (\<lambda>d. Inr [15, 240]), get_tpc_info = (\<lambda>d. Inr 8)\<rparr> (\<lambda>c. Inr 1)
        \<lparr>cu_count = Some 2, start_count = 0, stripe = False, device = 0\<rparr>
   = main \<lparr>get_gpc_info = (\<lambda>d. Inr [15, 240]), get_tpc_info = (\<lambda>d. Inr 8)\<rparr> (\<lambda>c. Inr 0)
        \<lparr>cu_count = Some 2, start_count = 0, stripe = False, device = 0\<rparr>
   \<and> calls (fst (sweep \<lparr>get_gpc_info = (\<lambda>d. Inr [15, 240]), get_tpc_info = (\<lambda>d. Inr 8)\<rparr>
                        (\<lambda>c. Inl OSError)
                        \<lparr>cu_count = Some 2, start_count = 0, stripe = False, device = 0\<rparr>
                        2 \<lparr>global_cu_mask = None\<rparr> [0, 1])) = [Alloc 1]
   \<and> snd (sweep \<lparr>get_gpc_info = (\<lambda>d. Inr [15, 240]), get_tpc_info = (\<lambda>d. Inr 8)\<rparr>
                 (\<lambda>c. Inl OSError)
                 \<lparr>cu_count = Some 2, start_count = 0, stripe = False, device = 0\<rparr>
                 2 \<lparr>global_cu_mask = None\<rparr> [0, 1]) = Raised OSError"
proof -
  let ?P = "\<lparr>get_gpc_info = (\<lambda>d. Inr [15, 240]), get_tpc_info = (\<lambda>d. Inr 8)\<rparr>"
  let ?A = "\<lparr>cu_count = Some 2, start_count = 0, stripe = False, device = 0\<rparr>"
  have a: "main ?P (\<lambda>c. Inr 1) ?A = main ?P (\<lambda>c. Inr 0) ?A"
    using exit_status_ignored [of ?P "\<lambda>c. Inr 1" ?A] by simp
  have al: "get_cu_mask ?P (0 + 1) 2 (stripe ?A) (device ?A) = Some (Inr (- 2))"
    using get_cu_mask_contiguous [of ?P 1 2 0] not_mask_vals(1) by simp
  have st: "(\<lambda>c :: overall_config. (Inl OSError :: py_error + int))
              (generate_config (- 2) (stripe ?A)) = Inl OSError" by simp
  have b: "calls (fst (sweep ?P (\<lambda>c. Inl OSError) ?A 2 \<lparr>global_cu_mask = None\<rparr> (0 # [1])))
             = [Alloc (0 + 1)]
           \<and> snd (sweep ?P (\<lambda>c. Inl OSError) ?A 2 \<lparr>global_cu_mask = None\<rparr> (0 # [1]))
             = Raised OSError"
    using exit_status_ignored [of ?P "\<lambda>c. Inl OSError" ?A 0 2 "- 2" OSError
                                  "\<lparr>global_cu_mask = None\<rparr>" "[1]"] al st
    by blast
  show ?thesis using a b by simp
qed

lemma upto_0_1: "[0 .. 1] = [0, 1 :: int]"
  by code_simp

lemma upto_0_2: "[0 .. 2] = [0, 1, 2 :: int]"
  by code_simp

text \<open>
  C9, as the claim states it, fails: with a runner that exits with status 1 every time,
  the sweep over two counts still starts its second step.
\<close>

theorem nonzero_exit_counterexample:
  "calls (fst (main \<lparr>get_gpc_info = (\<lambda>d. Inr [15, 240]), get_tpc_info = (\<lambda>d. Inr 8)\<rparr>
                    (\<lambda>c. Inr 1)
                    \<lparr>cu_count = Some 2, start_count = 0, stripe = False, device = 0\<rparr>)) =
     [Alloc 1, Runner (generate_config (- 2) False),
      Alloc 2, Runner (generate_config (- 4) False)]"
proof -
  let ?P = "\<lparr>get_gpc_info = (\<lambda>d. Inr [15, 240]), get_tpc_info = (\<lambda>d. Inr 8)\<rparr>"
  let ?A = "\<lparr>cu_count = Some 2, start_count = 0, stripe = False, device = 0\<rparr>"
  have h4: "\<forall>ac. start_count ?A \<le> ac \<and> ac < 2 \<longrightarrow>
              get_cu_mask ?P (ac + 1) 2 (stripe ?A) (device ?A)
                = Some (Inr ((\<lambda>n. NOT (mask (nat n))) (ac + 1)))"
    by (simp add: get_cu_mask_contiguous)
  have h5: "\<forall>c. \<exists>st. (\<lambda>c :: overall_config. (Inr 1 :: py_error + int)) c = Inr st" by simp
  have "calls (fst (main ?P (\<lambda>c. Inr 1) ?A)) =
           concat (map (\<lambda>ac. [Alloc (ac + 1),
                               Runner (generate_config ((\<lambda>n. NOT (mask (nat n))) (ac + 1)) (stripe ?A))])
                       [start_count ?A .. 2 - 1])"
    using main_calls [of ?A 2 ?P 8 "\<lambda>n. NOT (mask (nat n))" "\<lambda>c. Inr 1", OF _ _ _ h4 h5]
    by simp
  then show ?thesis
    using not_mask_vals by (simp add: upto_0_1)
qed

text \<open>
  C8 at a count that exceeds the hardware: three units asked of a device with two. The
  script prints its complaint and then runs all three steps.
\<close>

theorem exceeding_count_still_runs:
  "Print ''The CU count must not exceed the number of available TPCs.''
     \<in> set (fst (main \<lparr>get_gpc_info = (\<lambda>d. Inr [1, 2]), get_tpc_info = (\<lambda>d. Inr 2)\<rparr>
                       (\<lambda>c. Inr 0)
                       \<lparr>cu_count = Some 3, start_count = 0, stripe = False, device = 0\<rparr>))
   \<and> calls (fst (main \<lparr>get_gpc_info = (\<lambda>d. Inr [1, 2]), get_tpc_info = (\<lambda>d. Inr 2)\<rparr>
                       (\<lambda>c. Inr 0)
                       \<lparr>cu_count = Some 3, start_count = 0, stripe = False, device = 0\<rparr>)) =
       [Alloc 1, Runner (generate_config (- 2) False),
        Alloc 2, Runner (generate_config (- 4) False),
        Alloc 3, Runner (generate_config (- 8) False)]
   \<and> snd (main \<lparr>get_gpc_info = (\<lambda>d. Inr [1, 2]), get_tpc_info = (\<lambda>d. Inr 2)\<rparr>
                (\<lambda>c. Inr 0)
                \<lparr>cu_count = Some 3, start_count = 0, stripe = False, device = 0\<rparr>) = Finished"
proof -
  let ?P = "\<lparr>get_gpc_info = (\<lambda>d. Inr [1, 2]), get_tpc_info = (\<lambda>d. Inr 2)\<rparr>"
  let ?A = "\<lparr>cu_count = Some 3, start_count = 0, stripe = False, device = 0\<rparr>"
  let ?R = "\<lambda>c :: overall_config. (Inr 0 :: py_error + int)"
  have h4: "\<forall>ac. start_count ?A \<le> ac \<and> ac < 3 \<longrightarrow>
              get_cu_mask ?P (ac + 1) 3 (stripe ?A) (device ?A)
                = Some (Inr ((\<lambda>n. NOT (mask (nat n))) (ac + 1)))"
    by (simp add: get_cu_mask_contiguous)
  have h5: "\<forall>c. \<exists>st. ?R c = Inr st" by simp
  have c: "calls (fst (main ?P ?R ?A)) =
           concat (map (\<lambda>ac. [Alloc (ac + 1),
                               Runner (generate_config ((\<lambda>n. NOT (mask (nat n))) (ac + 1)) (stripe ?A))])
                       [start_count ?A .. 3 - 1])
         \<and> snd (main ?P ?R ?A) = Finished"
    using main_calls [of ?A 3 ?P 2 "\<lambda>n. NOT (mask (nat n))" ?R, OF _ _ _ h4 h5]
    by simp
  have p: "Print ''The CU count must not exceed the number of available TPCs.''
             \<in> set (fst (main ?P ?R ?A))"
    using main_supplied [of ?A 3 ?P 2 ?R] by (simp split: prod.splits)
  show ?thesis
    using c p not_mask_vals by (simp add: upto_0_2)
qed

lemma hex_string_eq_iff:
  "cu_mask_to_hex_string m = cu_mask_to_hex_string p \<longleftrightarrow> m mod 2 ^ 64 = p mod 2 ^ 64"
proof
  assume "cu_mask_to_hex_string m = cu_mask_to_hex_string p"
  then have "from_hex (cu_mask_to_hex_string m) = from_hex (cu_mask_to_hex_string p)" by simp
  then have "nat (m mod 2 ^ 64) = nat (p mod 2 ^ 64)" by (simp add: hex_string_facts(3))
  then show "m mod 2 ^ 64 = p mod 2 ^ 64" by (simp add: nat_eq_iff)
next
  assume "m mod 2 ^ 64 = p mod 2 ^ 64"
  then show "cu_mask_to_hex_string m = cu_mask_to_hex_string p" by (simp add: hex_string_eq)
qed

lemma benchmarks_sm_mask:
  "map sm_mask (benchmarks (generate_config m s)) = [cu_mask_to_hex_string m]"
  by (simp add: generate_config_def Let_def)

text \<open>
  C10. \<open>run_process\<close> builds the configuration from the module-level \<open>cu_mask\<close> and not
  from its parameter \<open>int_cu_mask\<close>: with no such global bound the call raises NameError
  and produces no configuration; with the global bound to \<open>m\<close> the configuration delivered
  is that of \<open>m\<close> for every parameter \<open>p\<close>, and its mask is the encoding of \<open>p\<close> exactly when
  \<open>m\<close> and \<open>p\<close> are the same 64-bit value. A step of the sweep stores the mask it computed
  in the global before the call, so there the two agree.
\<close>

theorem run_process_reads_global:
  "(global_cu_mask g = None \<longrightarrow> run_process run g p s = ([], Some NameError))
   \<and> (global_cu_mask g = Some m \<longrightarrow> run (generate_config m s) = Inr st \<longrightarrow>
        calls (fst (run_process run g p s)) = [Runner (generate_config m s)]
        \<and> map sm_mask (benchmarks (generate_config m s)) = [cu_mask_to_hex_string m]
        \<and> (cu_mask_to_hex_string m = cu_mask_to_hex_string p \<longleftrightarrow> m mod 2 ^ 64 = p mod 2 ^ 64))
   \<and> (get_cu_mask pys (ac + 1) t (stripe a) (device a) = Some (Inr m) \<longrightarrow>
        run (generate_config m (stripe a)) = Inr st \<longrightarrow>
        calls (fst (sweep pys run a t g [ac])) = [Alloc (ac + 1), Runner (generate_config m (stripe a))])"
proof (intro conjI impI)
  assume "global_cu_mask g = None"
  then show "run_process run g p s = ([], Some NameError)" by (simp add: run_process_def)
next
  assume "global_cu_mask g = Some m" "run (generate_config m s) = Inr st"
  then show "calls (fst (run_process run g p s)) = [Runner (generate_config m s)]"
    by (simp add: run_process_def calls_def)
next
  show "map sm_mask (benchmarks (generate_config m s)) = [cu_mask_to_hex_string m]"
    by (rule benchmarks_sm_mask)
next
  show "cu_mask_to_hex_string m = cu_mask_to_hex_string p \<longleftrightarrow> m mod 2 ^ 64 = p mod 2 ^ 64"
    by (rule hex_string_eq_iff)
next
  assume al: "get_cu_mask pys (ac + 1) t (stripe a) (device a) = Some (Inr m)"
    and st: "run (generate_config m (stripe a)) = Inr st"
  show "calls (fst (sweep pys run a t g [ac])) = [Alloc (ac + 1), Runner (generate_config m (stripe a))]"
    by (simp add: al calls_def
          run_process_launched [where run = run and m = m and s = "stripe a", OF st])
qed

theorem run_process_reads_global_witness:
  "run_process (\<lambda>c. Inr 0) \<lparr>global_cu_mask = None\<rparr> (- 2) False = ([], Some NameError)
   \<and> calls (fst (run_process (\<lambda>c. Inr 0) \<lparr>global_cu_mask = Some (- 8)\<rparr> (- 2) False))
       = [Runner (generate_config (- 8) False)]
   \<and> cu_mask_to_hex_string (- 8) \<noteq> cu_mask_to_hex_string (- 2)"
proof -
  have a: "run_process (\<lambda>c. Inr 0) \<lparr>global_cu_mask = None\<rparr> (- 2) False = ([], Some NameError)"
    using run_process_reads_global [of "\<lparr>global_cu_mask = None\<rparr>" "\<lambda>c. Inr 0" "- 2" False]
    by simp
  have b: "calls (fst (run_process (\<lambda>c. Inr 0) \<lparr>global_cu_mask = Some (- 8)\<rparr> (- 2) False))
       = [Runner (generate_config (- 8) False)]
     \<and> (cu_mask_to_hex_string (- 8) = cu_mask_to_hex_string (- 2)
          \<longleftrightarrow> (- 8 :: int) mod 2 ^ 64 = (- 2) mod 2 ^ 64)"
    using run_process_reads_global [of "\<lparr>global_cu_mask = Some (- 8)\<rparr>" "\<lambda>c. Inr 0" "- 2" False "- 8" 0]
    by simp
  have "(- 8 :: int) mod 2 ^ 64 \<noteq> (- 2) mod 2 ^ 64" by simp
  with a b show ?thesis by blast
qed

subsection \<open>Masks as sets of units\<close>

lemma bit_nonneg_le: "0 \<le> (m :: int) \<Longrightarrow> bit m k \<Longrightarrow> k \<le> nat m"
proof -
  assume m: "0 \<le> m" and b: "bit m k"
  have "\<not> m < 2 ^ k"
  proof
    assume "m < 2 ^ k"
    then have "m div 2 ^ k = 0" using m by simp
    with b show False by (simp add: bit_iff_odd)
  qed
  then have "2 ^ k \<le> m" by simp
  moreover have "int k < 2 ^ k"
  proof -
    have "k < 2 ^ k" by (rule less_exp)
    then have "int k < int (2 ^ k)" by (simp only: of_nat_less_iff)
    then show ?thesis by simp
  qed
  ultimately show ?thesis by linarith
qed

lemma finite_unit_set: "0 \<le> m \<Longrightarrow> finite (unit_set m)"
proof -
  assume "0 \<le> m"
  then have "unit_set m \<subseteq> {.. nat m}" by (auto simp: unit_set_def dest: bit_nonneg_le)
  then show ?thesis by (rule finite_subset) simp
qed

lemma unit_set_empty_iff: "unit_set m = {} \<longleftrightarrow> m = 0"
  by (auto simp: unit_set_def bit_eq_iff)

lemma nat_bits_split:
  "{k. bit (n :: nat) k} = (if odd n then {0} else {}) \<union> Suc ` {k. bit (n div 2) k}"
proof (rule set_eqI)
  fix k show "k \<in> {k. bit n k} \<longleftrightarrow> k \<in> (if odd n then {0} else {}) \<union> Suc ` {k. bit (n div 2) k}"
    by (cases k) (auto simp: bit_0 bit_Suc)
qed

lemma finite_nat_bits: "finite {k. bit (n :: nat) k}"
proof -
  have "{k. bit n k} = unit_set (int n)" by (auto simp: unit_set_def bit_simps)
  then show ?thesis using finite_unit_set [of "int n"] by simp
qed

lemma bit_count_card_nat: "bit_count n = card {k. bit n k}"
proof (induction n rule: bit_count.induct)
  case (1 n)
  show ?case
  proof (cases "n = 0")
    case True
    then show ?thesis by (simp add: bit_count.simps)
  next
    case False
    have f: "finite (Suc ` {k. bit (n div 2) k})" using finite_nat_bits by simp
    have d: "(if odd n then {0} else {}) \<inter> Suc ` {k. bit (n div 2) k} = {}" by auto
    have "card {k. bit n k} = card (if odd n then {0::nat} else {}) + card (Suc ` {k. bit (n div 2) k})"
      by (subst nat_bits_split, subst card_Un_disjoint) (use f d in auto)
    also have "card (Suc ` {k. bit (n div 2) k}) = card {k. bit (n div 2) k}"
      by (rule card_image) simp
    also have "card (if odd n then {0::nat} else {}) = n mod 2"
      by (auto simp: odd_iff_mod_2_eq_one)
    finally show ?thesis using False 1 by (subst bit_count.simps) simp
  qed
qed

lemma bit_count_card: "0 \<le> m \<Longrightarrow> bit_count (nat m) = card (unit_set m)"
proof -
  assume "0 \<le> m"
  then have "{k. bit (nat m) k} = unit_set m" by (auto simp: unit_set_def bit_simps)
  then show ?thesis by (simp add: bit_count_card_nat)
qed

lemma lowbit_odd: "odd (m :: int) \<Longrightarrow> m AND - m = 1"
proof -
  assume o: "odd m"
  have "bit (m AND - m) k \<longleftrightarrow> bit (1 :: int) k" for k
  proof (cases k)
    case 0
    then show ?thesis using o by (simp add: bit_0 even_and_iff)
  next
    case (Suc j)
    have "(- m) div 2 = NOT (m div 2)" using o by (auto simp: not_int_def elim!: oddE)
    then have "bit (- m) (Suc j) = (\<not> bit m (Suc j))" by (simp add: bit_Suc bit_simps)
    then show ?thesis using Suc by (simp add: bit_and_iff bit_1_iff)
  qed
  then show ?thesis by (rule bit_eqI)
qed

lemma lowbit_even: "even (m :: int) \<Longrightarrow> m AND - m = 2 * ((m div 2) AND - (m div 2))"
proof -
  assume "even m"
  then obtain q where q: "m = 2 * q" by (elim evenE)
  have "(2 * q) AND (- (2 * q)) = push_bit 1 q AND push_bit 1 (- q)"
    by (simp add: push_bit_eq_mult ac_simps)
  also have "\<dots> = push_bit 1 (q AND - q)" by (simp only: push_bit_and)
  finally show ?thesis using q by (simp add: push_bit_eq_mult)
qed

lemma lowbit_least:
  "bit (m :: int) k \<Longrightarrow> (\<forall>j<k. \<not> bit m j) \<Longrightarrow> m AND - m = 2 ^ k"
proof (induction k arbitrary: m)
  case 0
  then show ?case by (simp add: lowbit_odd bit_0)
next
  case (Suc k)
  have e: "even m" using Suc.prems(2) by (auto simp: bit_0 dest: spec [of _ 0])
  have "bit (m div 2) k" using Suc.prems(1) by (simp add: bit_Suc)
  moreover have "\<forall>j<k. \<not> bit (m div 2) j"
  proof (intro allI impI)
    fix j assume "j < k"
    then have "\<not> bit m (Suc j)" using Suc.prems(2) by simp
    then show "\<not> bit (m div 2) j" by (simp add: bit_Suc)
  qed
  ultimately have "(m div 2) AND - (m div 2) = 2 ^ k" by (rule Suc.IH)
  then show ?case using lowbit_even [OF e] by simp
qed

lemma lowbit_exists:
  assumes "(m :: int) \<noteq> 0"
  shows "\<exists>k. bit m k \<and> (\<forall>j<k. \<not> bit m j) \<and> m AND - m = 2 ^ k"
proof -
  from assms obtain k0 where "bit m k0" by (auto simp: bit_eq_iff)
  define k where "k = (LEAST k. bit m k)"
  have b: "bit m k" unfolding k_def using \<open>bit m k0\<close> by (rule LeastI)
  have l: "\<forall>j<k. \<not> bit m j" unfolding k_def using not_less_Least by blast
  show ?thesis using b l lowbit_least [OF b l] by blast
qed

lemma lowbit_zero_iff: "(m :: int) AND - m = 0 \<longleftrightarrow> m = 0"
proof
  assume z: "m AND - m = 0"
  show "m = 0"
  proof (rule ccontr)
    assume "m \<noteq> 0"
    from lowbit_exists [OF this] obtain k where "m AND - m = 2 ^ k" by blast
    with z show False by simp
  qed
qed simp

lemma lowbit_nonneg: "0 \<le> (m :: int) AND - m"
  by (cases "0 \<le> m") auto

lemma unit_set_clear:
  "bit (m :: int) k \<Longrightarrow> unit_set (m - 2 ^ k) = unit_set m - {k}"
proof -
  assume b: "bit m k"
  then have "m - 2 ^ k = unset_bit k m" by (simp add: unset_bit_eq)
  then show ?thesis by (auto simp: unit_set_def bit_unset_bit_iff)
qed

lemma clear_nonneg: "0 \<le> (m :: int) \<Longrightarrow> bit m k \<Longrightarrow> 0 \<le> m - 2 ^ k"
proof -
  assume m: "0 \<le> m" and b: "bit m k"
  then have "m - 2 ^ k = unset_bit k m" by (simp add: unset_bit_eq)
  then show ?thesis using m by simp
qed

lemma unit_set_or: "unit_set (r OR 2 ^ k) = insert k (unit_set r)"
  by (auto simp: unit_set_def bit_simps)

lemma unit_set_and: "unit_set (a AND b) = unit_set a \<inter> unit_set b"
  by (auto simp: unit_set_def bit_simps)

lemma and_zero_disjoint: "a AND b = 0 \<longleftrightarrow> unit_set a \<inter> unit_set b = {}"
  using unit_set_empty_iff [of "a AND b"] by (simp add: unit_set_and)

subsection \<open>The invariant of the striped loop\<close>

lemma scan_gpcs_step:
  "g < length info \<Longrightarrow>
   scan_gpcs info g =
     (if info ! g = 0 then scan_gpcs info ((g + 1) mod length info)
      else Some (Inr (info ! g AND - (info ! g), (g + 1) mod length info)))"
  by (subst scan_gpcs.simps) (simp add: Let_def lowbit_zero_iff)

lemma py_index_cursor:
  "j < length info \<Longrightarrow> py_index info (int ((j + 1) mod length info) - 1) = Some j"
proof (cases "j + 1 = length info")
  case True
  assume "j < length info"
  with True show ?thesis by (auto simp: py_index_def Let_def)
next
  case False
  assume "j < length info"
  with False have "(j + 1) mod length info = j + 1" by simp
  then show ?thesis using \<open>j < length info\<close> by (simp add: py_index_def Let_def)
qed

lemma cursor_advance:
  assumes "(g :: nat) < L"
    and "\<forall>i<L. i \<noteq> g \<longrightarrow> f i = min (s i) (if i < g then Suc c else c)"
    and "f g = min (s g) (Suc c)"
  shows "\<exists>c'. \<forall>i<L. f i = min (s i) (if i < (g + 1) mod L then Suc c' else (c' :: nat))"
proof (cases "g + 1 = L")
  case True
  have "\<forall>i<L. f i = min (s i) (if i < (g + 1) mod L then Suc (Suc c) else Suc c)"
  proof (intro allI impI)
    fix i assume "i < L"
    then have "i < g \<or> i = g" using True by arith
    then show "f i = min (s i) (if i < (g + 1) mod L then Suc (Suc c) else Suc c)"
      using assms \<open>i < L\<close> True by auto
  qed
  then show ?thesis by blast
next
  case False
  then have m: "(g + 1) mod L = g + 1" using assms(1) by simp
  have "\<forall>i<L. f i = min (s i) (if i < (g + 1) mod L then Suc c else c)"
  proof (intro allI impI)
    fix i assume "i < L"
    then show "f i = min (s i) (if i < (g + 1) mod L then Suc c else c)"
      using assms m by (cases "i = g") auto
  qed
  then show ?thesis by blast
qed

lemma inv_init:
  assumes "info0 \<noteq> []" "\<forall>i<length info0. 0 \<le> info0 ! i"
  shows "spread_inv info0 info0 0 0 0"
  using assms by (simp add: spread_inv_def units_inv_def round_inv_def taken_def unit_set_def)

lemma round_skip:
  assumes inv: "round_inv info0 info g c" and z: "info ! g = 0"
  shows "\<exists>c'. round_inv info0 info ((g + 1) mod length info0) c'"
proof -
  let ?L = "length info0"
  have g: "g < ?L" using inv by (simp add: round_inv_def)
  have tg: "taken info0 info g = unit_set (info0 ! g)"
    using z by (simp add: taken_def unit_set_def)
  have cg: "card (taken info0 info g) = min (card (unit_set (info0 ! g))) c"
    using inv g by (simp add: round_inv_def)
  then have "card (taken info0 info g) = min (card (unit_set (info0 ! g))) (Suc c)"
    using tg by simp
  moreover have "\<forall>i<?L. i \<noteq> g \<longrightarrow> card (taken info0 info i)
                    = min (card (unit_set (info0 ! i))) (if i < g then Suc c else c)"
    using inv by (simp add: round_inv_def)
  ultimately obtain c' where
    "\<forall>i<?L. card (taken info0 info i)
        = min (card (unit_set (info0 ! i))) (if i < (g + 1) mod ?L then Suc c' else c')"
    using cursor_advance [OF g, of "\<lambda>i. card (taken info0 info i)"
                            "\<lambda>i. card (unit_set (info0 ! i))" c] by blast
  moreover have "(g + 1) mod ?L < ?L" by (rule mod_less_divisor) (use g in auto)
  ultimately have "round_inv info0 info ((g + 1) mod ?L) c'"
    unfolding round_inv_def by blast
  then show ?thesis by blast
qed

lemma total_units_nth:
  "\<forall>i<length info. 0 \<le> info ! i \<Longrightarrow>
   total_units info = (\<Sum>i<length info. card (unit_set (info ! i)))"
proof -
  assume nn: "\<forall>i<length info. 0 \<le> info ! i"
  have "total_units info = (\<Sum>i = 0..<length info. bit_count (nat (info ! i)))"
    by (simp add: total_units_def sum_list_sum_nth)
  also have "\<dots> = (\<Sum>i = 0..<length info. card (unit_set (info ! i)))"
    using nn by (intro sum.cong) (simp_all add: bit_count_card)
  finally show ?thesis by (simp add: lessThan_atLeast0)
qed

lemma total_units_update:
  assumes g: "g < length info" and x: "bit_count (nat x) + 1 = bit_count (nat (info ! g))"
  shows "total_units (info[g := x]) + 1 = total_units info"
proof -
  let ?f = "\<lambda>m. bit_count (nat m)"
  have "map ?f (info[g := x]) = (map ?f info)[g := ?f x]" by (simp add: map_update)
  then have "total_units (info[g := x]) = sum_list (map ?f info) + ?f x - (map ?f info) ! g"
    using g by (simp add: total_units_def sum_list_update)
  moreover have "(map ?f info) ! g \<le> sum_list (map ?f info)"
    using g by (intro elem_le_sum_list) simp
  ultimately show ?thesis using g x by (simp add: total_units_def)
qed

lemma units_pick:
  assumes inv: "units_inv info0 info res" and g: "g < length info0" and nz: "info ! g \<noteq> 0"
  shows "\<exists>k. units_inv info0 (info[g := info ! g - (info ! g AND - (info ! g))])
                 (res OR (info ! g AND - (info ! g)))
            \<and> taken info0 (info[g := info ! g - (info ! g AND - (info ! g))]) g
                = insert k (taken info0 info g)
            \<and> k \<notin> taken info0 info g \<and> k \<in> unit_set (info0 ! g)
            \<and> (\<forall>i<length info0. i \<noteq> g \<longrightarrow>
                  taken info0 (info[g := info ! g - (info ! g AND - (info ! g))]) i
                    = taken info0 info i)
            \<and> total_units (info[g := info ! g - (info ! g AND - (info ! g))]) + 1
                = total_units info"
proof -
  let ?L = "length info0"
  let ?b = "info ! g AND - (info ! g)"
  let ?info' = "info[g := info ! g - ?b]"
  have len: "length info = ?L" using inv by (simp add: units_inv_def)
  have res: "0 \<le> res" and ures: "unit_set res = (\<Union>i<?L. taken info0 info i)"
    using inv by (simp_all add: units_inv_def)
  have grp: "\<And>i. i < ?L \<Longrightarrow> 0 \<le> info ! i \<and> 0 \<le> info0 ! i
                  \<and> unit_set (info ! i) \<subseteq> unit_set (info0 ! i)
                  \<and> (\<forall>p\<in>taken info0 info i. \<forall>q\<in>unit_set (info ! i). p < q)"
    using inv by (simp add: units_inv_def)
  from lowbit_exists [OF nz] obtain k where
    bk: "bit (info ! g) k" and least: "\<forall>j<k. \<not> bit (info ! g) j" and b: "?b = 2 ^ k"
    by blast
  have kU: "k \<in> unit_set (info ! g)" using bk by (simp add: unit_set_def)
  have kU0: "k \<in> unit_set (info0 ! g)" using kU grp [OF g] by blast
  have U'g: "unit_set (?info' ! g) = unit_set (info ! g) - {k}"
    using g len b unit_set_clear [OF bk] by simp
  have other: "\<And>i. i \<noteq> g \<Longrightarrow> ?info' ! i = info ! i" by simp
  have tg: "taken info0 ?info' g = insert k (taken info0 info g)"
    using kU kU0 by (auto simp: taken_def U'g)
  have knt: "k \<notin> taken info0 info g" using kU by (simp add: taken_def)
  have toth: "\<forall>i<?L. i \<noteq> g \<longrightarrow> taken info0 ?info' i = taken info0 info i"
    by (simp add: taken_def)
  have un: "(\<Union>i<?L. taken info0 ?info' i) = insert k (\<Union>i<?L. taken info0 info i)"
  proof (rule set_eqI)
    fix x
    show "x \<in> (\<Union>i<?L. taken info0 ?info' i) \<longleftrightarrow> x \<in> insert k (\<Union>i<?L. taken info0 info i)"
    proof
      assume "x \<in> (\<Union>i<?L. taken info0 ?info' i)"
      then obtain i where i: "i < ?L" "x \<in> taken info0 ?info' i" by auto
      show "x \<in> insert k (\<Union>i<?L. taken info0 info i)"
      proof (cases "i = g")
        case True
        with i tg show ?thesis using g by auto
      next
        case False
        with i toth show ?thesis by auto
      qed
    next
      assume "x \<in> insert k (\<Union>i<?L. taken info0 info i)"
      then consider "x = k" | i where "i < ?L" "x \<in> taken info0 info i" by auto
      then show "x \<in> (\<Union>i<?L. taken info0 ?info' i)"
      proof cases
        case 1
        then show ?thesis using tg g by auto
      next
        case 2
        then show ?thesis using tg toth g by (cases "i = g") auto
      qed
    qed
  qed
  have u1: "unit_set (res OR ?b) = (\<Union>i<?L. taken info0 ?info' i)"
  proof -
    have "unit_set (res OR ?b) = insert k (unit_set res)" by (simp only: b unit_set_or)
    then show ?thesis by (simp only: ures un)
  qed
  have u2: "0 \<le> res OR ?b" using res lowbit_nonneg [of "info ! g"] by simp
  have u3: "\<forall>i<?L. 0 \<le> ?info' ! i \<and> 0 \<le> info0 ! i
                  \<and> unit_set (?info' ! i) \<subseteq> unit_set (info0 ! i)
                  \<and> (\<forall>p\<in>taken info0 ?info' i. \<forall>q\<in>unit_set (?info' ! i). p < q)"
  proof (intro allI impI)
    fix i assume i: "i < ?L"
    show "0 \<le> ?info' ! i \<and> 0 \<le> info0 ! i
                  \<and> unit_set (?info' ! i) \<subseteq> unit_set (info0 ! i)
                  \<and> (\<forall>p\<in>taken info0 ?info' i. \<forall>q\<in>unit_set (?info' ! i). p < q)"
    proof (cases "i = g")
      case False
      then show ?thesis using grp [OF i] by (simp add: taken_def)
    next
      case True
      have a: "0 \<le> ?info' ! g"
        using g len b clear_nonneg [OF _ bk] grp [OF g] by simp
      have c: "unit_set (?info' ! g) \<subseteq> unit_set (info0 ! g)"
        using U'g grp [OF g] by blast
      have d: "\<forall>p\<in>taken info0 ?info' g. \<forall>q\<in>unit_set (?info' ! g). p < q"
      proof (intro ballI)
        fix p q assume p: "p \<in> taken info0 ?info' g" and q: "q \<in> unit_set (?info' ! g)"
        from q have q1: "q \<in> unit_set (info ! g)" and q2: "q \<noteq> k" using U'g by auto
        from p tg consider "p = k" | "p \<in> taken info0 info g" by auto
        then show "p < q"
        proof cases
          case 1
          have "\<not> q < k" using least q1 by (auto simp: unit_set_def)
          with q2 1 show ?thesis by simp
        next
          case 2
          then show ?thesis using grp [OF g] q1 by blast
        qed
      qed
      show ?thesis using True a c d grp [OF g] by simp
    qed
  qed
  have u: "units_inv info0 ?info' (res OR ?b)"
    unfolding units_inv_def using len u1 u2 u3 by simp
  have fin: "finite (unit_set (info ! g))" using grp [OF g] by (simp add: finite_unit_set)
  have "card (unit_set (info ! g) - {k}) + 1 = card (unit_set (info ! g))"
    using card.remove [OF fin kU] by simp
  then have "bit_count (nat (info ! g - ?b)) + 1 = bit_count (nat (info ! g))"
    using bit_count_card [of "info ! g"] bit_count_card [of "info ! g - 2 ^ k"]
      clear_nonneg [OF _ bk] grp [OF g] unit_set_clear [OF bk] b by simp
  then have tot: "total_units ?info' + 1 = total_units info"
    using g len by (intro total_units_update) simp_all
  show ?thesis using u tg knt kU0 toth tot by blast
qed

lemma round_pick:
  assumes inv: "round_inv info0 info g c"
    and nn: "0 \<le> info0 ! g"
    and tg: "taken info0 info' g = insert k (taken info0 info g)"
    and knt: "k \<notin> taken info0 info g" and kU0: "k \<in> unit_set (info0 ! g)"
    and toth: "\<forall>i<length info0. i \<noteq> g \<longrightarrow> taken info0 info' i = taken info0 info i"
  shows "\<exists>c'. round_inv info0 info' ((g + 1) mod length info0) c'"
proof -
  let ?L = "length info0"
  have g: "g < ?L" using inv by (simp add: round_inv_def)
  have fin0: "finite (unit_set (info0 ! g))" using nn by (rule finite_unit_set)
  have sub: "taken info0 info' g \<subseteq> unit_set (info0 ! g)" by (auto simp: taken_def)
  have fin: "finite (taken info0 info g)"
    by (rule finite_subset [OF _ fin0]) (auto simp: taken_def)
  have c1: "card (taken info0 info' g) = Suc (card (taken info0 info g))"
    using tg knt fin by simp
  have le: "card (taken info0 info' g) \<le> card (unit_set (info0 ! g))"
    using sub fin0 by (rule card_mono [rotated])
  have cg: "card (taken info0 info g) = min (card (unit_set (info0 ! g))) c"
    using inv g by (simp add: round_inv_def)
  have "card (taken info0 info' g) = min (card (unit_set (info0 ! g))) (Suc c)"
    using c1 le cg by (simp add: min_def split: if_splits)
  moreover have "\<forall>i<?L. i \<noteq> g \<longrightarrow> card (taken info0 info' i)
                    = min (card (unit_set (info0 ! i))) (if i < g then Suc c else c)"
    using inv toth by (simp add: round_inv_def)
  ultimately obtain c' where
    "\<forall>i<?L. card (taken info0 info' i)
        = min (card (unit_set (info0 ! i))) (if i < (g + 1) mod ?L then Suc c' else c')"
    using cursor_advance [OF g, of "\<lambda>i. card (taken info0 info' i)"
                            "\<lambda>i. card (unit_set (info0 ! i))" c] by blast
  moreover have "(g + 1) mod ?L < ?L" by (rule mod_less_divisor) (use g in auto)
  ultimately have "round_inv info0 info' ((g + 1) mod ?L) c'"
    unfolding round_inv_def by blast
  then show ?thesis by blast
qed

lemma scan_finds:
  assumes len: "length info = length info0"
    and r: "round_inv info0 info g c"
    and nz: "info ! ((g + n) mod length info0) \<noteq> 0"
  shows "\<exists>j c'. j < length info0 \<and> info ! j \<noteq> 0 \<and> round_inv info0 info j c'
               \<and> scan_gpcs info g
                   = Some (Inr (info ! j AND - (info ! j), (j + 1) mod length info0))"
  using r nz
proof (induction n arbitrary: g c)
  case 0
  have g: "g < length info0" using "0.prems"(1) by (simp add: round_inv_def)
  then have "info ! g \<noteq> 0" using "0.prems"(2) by simp
  then show ?case
    using g "0.prems"(1) scan_gpcs_step [of g info] len by auto
next
  case (Suc n)
  have g: "g < length info0" using Suc.prems(1) by (simp add: round_inv_def)
  show ?case
  proof (cases "info ! g = 0")
    case False
    then show ?thesis
      using g Suc.prems(1) scan_gpcs_step [of g info] len by auto
  next
    case True
    from round_skip [OF Suc.prems(1) True] obtain c' where
      r': "round_inv info0 info ((g + 1) mod length info0) c'" by blast
    have "((g + 1) mod length info0 + n) mod length info0 = (g + Suc n) mod length info0"
      by (simp add: mod_add_left_eq)
    then have nz': "info ! (((g + 1) mod length info0 + n) mod length info0) \<noteq> 0"
      using Suc.prems(2) by simp
    from Suc.IH [OF r' nz'] obtain j c'' where
      j: "j < length info0" "info ! j \<noteq> 0" "round_inv info0 info j c''"
         "scan_gpcs info ((g + 1) mod length info0)
            = Some (Inr (info ! j AND - (info ! j), (j + 1) mod length info0))"
      by blast
    have "scan_gpcs info g = scan_gpcs info ((g + 1) mod length info0)"
      using scan_gpcs_step [of g info] g len True by simp
    with j show ?thesis by auto
  qed
qed

lemma exists_offset: "(g :: nat) < L \<Longrightarrow> i < L \<Longrightarrow> \<exists>n. (g + n) mod L = i"
proof -
  assume "g < L" "i < L"
  then have "(g + (i + L - g)) mod L = i" by simp
  then show ?thesis by blast
qed

lemma bit_count_0: "bit_count 0 = 0"
  by (simp add: bit_count.simps)

lemma total_pos_nonzero: "0 < total_units info \<Longrightarrow> \<exists>i<length info. info ! i \<noteq> 0"
proof -
  assume "0 < total_units info"
  then have "sum_list (map (\<lambda>m. bit_count (nat m)) info) \<noteq> 0"
    unfolding total_units_def by (rule gr_implies_not0)
  moreover have "(\<forall>m\<in>set info. bit_count (nat m) = 0)
                   \<longrightarrow> sum_list (map (\<lambda>m. bit_count (nat m)) info) = 0"
    by (induction info) simp_all
  ultimately have "\<not> (\<forall>m\<in>set info. bit_count (nat m) = 0)" by auto
  then obtain m where m: "m \<in> set info" "bit_count (nat m) \<noteq> 0" by blast
  then have "m \<noteq> 0" using bit_count_0 by auto
  with m(1) show ?thesis by (auto simp: in_set_conv_nth)
qed

lemma striped_run:
  assumes "spread_inv info0 info g res c" "k \<le> total_units info"
  shows "\<exists>info' g' res' c'. spread_inv info0 info' g' res' c'
           \<and> total_units info' + k = total_units info
           \<and> (\<forall>m. striped_loop (k + m) info g res = striped_loop m info' g' res')"
  using assms
proof (induction k arbitrary: info g res c)
  case 0
  then show ?case by auto
next
  case (Suc k)
  let ?L = "length info0"
  have u: "units_inv info0 info res" and r: "round_inv info0 info g c"
    using Suc.prems(1) by (simp_all add: spread_inv_def)
  have len: "length info = ?L" using u by (simp add: units_inv_def)
  have g: "g < ?L" using r by (simp add: round_inv_def)
  from Suc.prems(2) have "0 < total_units info" by simp
  from total_pos_nonzero [OF this] obtain i where i: "i < ?L" "info ! i \<noteq> 0"
    using len by auto
  from exists_offset [OF g i(1)] obtain n where "(g + n) mod ?L = i" by blast
  with i have nz: "info ! ((g + n) mod ?L) \<noteq> 0" by simp
  from scan_finds [OF len r nz] obtain j c1 where
    j: "j < ?L" "info ! j \<noteq> 0" and rj: "round_inv info0 info j c1"
    and sc: "scan_gpcs info g = Some (Inr (info ! j AND - (info ! j), (j + 1) mod ?L))"
    by blast
  let ?b = "info ! j AND - (info ! j)"
  let ?info1 = "info[j := info ! j - ?b]"
  from units_pick [OF u j] obtain k1 where
    u1: "units_inv info0 ?info1 (res OR ?b)"
    and tg: "taken info0 ?info1 j = insert k1 (taken info0 info j)"
    and knt: "k1 \<notin> taken info0 info j" and kU0: "k1 \<in> unit_set (info0 ! j)"
    and toth: "\<forall>i<?L. i \<noteq> j \<longrightarrow> taken info0 ?info1 i = taken info0 info i"
    and tot: "total_units ?info1 + 1 = total_units info"
    by blast
  have nn: "0 \<le> info0 ! j" using u j(1) by (simp add: units_inv_def)
  from round_pick [OF rj nn tg knt kU0 toth] obtain c2 where
    r1: "round_inv info0 ?info1 ((j + 1) mod ?L) c2" by blast
  have s1: "spread_inv info0 ?info1 ((j + 1) mod ?L) (res OR ?b) c2"
    using u1 r1 by (simp add: spread_inv_def)
  have k1: "k \<le> total_units ?info1" using tot Suc.prems(2) by simp
  from Suc.IH [OF s1 k1] obtain info' g' res' c' where
    fin: "spread_inv info0 info' g' res' c'"
      "total_units info' + k = total_units ?info1"
      "\<forall>m. striped_loop (k + m) ?info1 ((j + 1) mod ?L) (res OR ?b) = striped_loop m info' g' res'"
    by blast
  have idx: "py_index info (int ((j + 1) mod ?L) - 1) = Some j"
    using py_index_cursor [of j info] j(1) len by simp
  have step: "\<And>m. striped_loop (Suc k + m) info g res
                  = striped_loop (k + m) ?info1 ((j + 1) mod ?L) (res OR ?b)"
    using idx by (simp add: sc)
  have "total_units info' + Suc k = total_units info" using fin(2) tot by simp
  with fin(1) fin(3) step show ?case by (metis)
qed

subsection \<open>What the invariant gives at the end\<close>

lemma disjoint_groups_nth:
  assumes "disjoint_groups info" "i < length info" "j < length info" "i \<noteq> j"
  shows "unit_set (info ! i) \<inter> unit_set (info ! j) = {}"
proof -
  have s: "\<And>a b. a < b \<Longrightarrow> b < length info \<Longrightarrow> info ! a AND info ! b = 0"
    using assms(1) by (simp add: disjoint_groups_def sorted_wrt_iff_nth_less)
  have "info ! i AND info ! j = 0"
  proof (cases "i < j")
    case True
    then show ?thesis using s assms(3) by blast
  next
    case False
    then have "j < i" using assms(4) by simp
    then have "info ! j AND info ! i = 0" using s assms(2) by blast
    then show ?thesis by (simp add: and.commute)
  qed
  then show ?thesis by (simp add: and_zero_disjoint)
qed

lemma selected_in_group:
  assumes u: "units_inv info0 info res" and dis: "disjoint_groups info0" and i: "i < length info0"
  shows "unit_set res \<inter> unit_set (info0 ! i) = taken info0 info i"
proof (rule set_eqI)
  fix x
  have ures: "unit_set res = (\<Union>i<length info0. taken info0 info i)"
    using u by (simp add: units_inv_def)
  show "x \<in> unit_set res \<inter> unit_set (info0 ! i) \<longleftrightarrow> x \<in> taken info0 info i"
  proof
    assume x: "x \<in> unit_set res \<inter> unit_set (info0 ! i)"
    then obtain l where l: "l < length info0" "x \<in> taken info0 info l" using ures by auto
    have "l = i"
    proof (rule ccontr)
      assume "l \<noteq> i"
      from disjoint_groups_nth [OF dis l(1) i this] l(2) x show False
        by (auto simp: taken_def)
    qed
    with l show "x \<in> taken info0 info i" by simp
  next
    assume "x \<in> taken info0 info i"
    then show "x \<in> unit_set res \<inter> unit_set (info0 ! i)"
      using ures i by (auto simp: taken_def)
  qed
qed

lemma assigned_taken:
  assumes u: "units_inv info0 info res" and dis: "disjoint_groups info0" and i: "i < length info0"
  shows "assigned (NOT res) (info0 ! i) = card (taken info0 info i)"
proof -
  have "0 \<le> res" using u by (simp add: units_inv_def)
  then have "0 \<le> res AND info0 ! i" by simp
  then have "bit_count (nat (res AND info0 ! i)) = card (unit_set (res AND info0 ! i))"
    by (rule bit_count_card)
  then show ?thesis
    by (simp add: assigned_def unit_set_and selected_in_group [OF u dis i])
qed

lemma selected_count:
  assumes u: "units_inv info0 info res" and dis: "disjoint_groups info0"
    and tot: "total_units info + n = total_units info0"
  shows "bit_count (nat res) = n"
proof -
  let ?L = "length info0"
  have len: "length info = ?L" and res: "0 \<le> res"
    and ures: "unit_set res = (\<Union>i<?L. taken info0 info i)"
    using u by (simp_all add: units_inv_def)
  have grp: "\<And>i. i < ?L \<Longrightarrow> 0 \<le> info ! i \<and> 0 \<le> info0 ! i
                  \<and> unit_set (info ! i) \<subseteq> unit_set (info0 ! i)"
    using u by (simp add: units_inv_def)
  have fin: "\<forall>i\<in>{..<?L}. finite (taken info0 info i)"
    using grp by (auto simp: taken_def intro: finite_unit_set)
  have dj: "\<forall>i\<in>{..<?L}. \<forall>j\<in>{..<?L}. i \<noteq> j \<longrightarrow> taken info0 info i \<inter> taken info0 info j = {}"
  proof (intro ballI impI)
    fix i j assume "i \<in> {..<?L}" "j \<in> {..<?L}" "i \<noteq> j"
    then have "unit_set (info0 ! i) \<inter> unit_set (info0 ! j) = {}"
      using disjoint_groups_nth [OF dis] by simp
    then show "taken info0 info i \<inter> taken info0 info j = {}" by (auto simp: taken_def)
  qed
  have "card (unit_set res) = (\<Sum>i<?L. card (taken info0 info i))"
    unfolding ures using fin dj by (intro card_UN_disjoint) simp_all
  also have "\<dots> = (\<Sum>i<?L. card (unit_set (info0 ! i)) - card (unit_set (info ! i)))"
  proof (intro sum.cong refl)
    fix i assume "i \<in> {..<?L}"
    then have i: "i < ?L" by simp
    show "card (taken info0 info i) = card (unit_set (info0 ! i)) - card (unit_set (info ! i))"
      unfolding taken_def using grp [OF i] by (intro card_Diff_subset) (simp_all add: finite_unit_set)
  qed
  also have "\<dots> = (\<Sum>i<?L. card (unit_set (info0 ! i))) - (\<Sum>i<?L. card (unit_set (info ! i)))"
  proof (intro sum_subtractf_nat)
    fix i assume "i \<in> {..<?L}"
    then have i: "i < ?L" by simp
    show "card (unit_set (info ! i)) \<le> card (unit_set (info0 ! i))"
      using grp [OF i] by (intro card_mono) (simp_all add: finite_unit_set)
  qed
  also have "\<dots> = total_units info0 - total_units info"
    using total_units_nth [of info0] total_units_nth [of info] grp len by simp
  also have "\<dots> = n" using tot by simp
  finally show ?thesis using bit_count_card [OF res] by simp
qed

lemma round_spread:
  assumes r: "round_inv info0 info g c" and i: "i < length info0" and j: "j < length info0"
  shows "card (taken info0 info i) \<le> card (taken info0 info j) + 1
         \<or> card (taken info0 info j) = card (unit_set (info0 ! j))"
  using r i j unfolding round_inv_def by (auto simp: min_def split: if_splits)

lemma round_ties:
  assumes r: "round_inv info0 info g c" and i: "i < length info0" and j: "j < i"
    and lt: "card (taken info0 info j) < card (unit_set (info0 ! j))"
  shows "card (taken info0 info i) \<le> card (taken info0 info j)"
proof -
  have jl: "j < length info0" using i j by simp
  have ci: "card (taken info0 info i) = min (card (unit_set (info0 ! i))) (if i < g then Suc c else c)"
    and cj: "card (taken info0 info j) = min (card (unit_set (info0 ! j))) (if j < g then Suc c else c)"
    using r i jl by (simp_all add: round_inv_def)
  from cj lt have "card (taken info0 info j) = (if j < g then Suc c else c)"
    by (simp add: min_def split: if_splits)
  moreover have "card (taken info0 info i) \<le> (if i < g then Suc c else c)" using ci by simp
  ultimately show ?thesis using j by (auto split: if_splits)
qed

lemma lowest_first:
  assumes u: "units_inv info0 info res" and dis: "disjoint_groups info0" and i: "i < length info0"
    and p: "bit (info0 ! i) p" and q: "bit (info0 ! i) q" and pq: "p < q" and s: "bit res q"
  shows "bit res p"
proof (rule ccontr)
  assume np: "\<not> bit res p"
  have sel: "unit_set res \<inter> unit_set (info0 ! i) = taken info0 info i"
    by (rule selected_in_group [OF u dis i])
  have qt: "q \<in> taken info0 info i" using sel q s by (auto simp: unit_set_def)
  have "p \<notin> taken info0 info i" using sel np by (auto simp: unit_set_def)
  then have "p \<in> unit_set (info ! i)" using p by (simp add: taken_def unit_set_def)
  moreover have "\<forall>p\<in>taken info0 info i. \<forall>q\<in>unit_set (info ! i). p < q"
    using u i by (simp add: units_inv_def)
  ultimately have "q < p" using qt by blast
  with pq show False by simp
qed

lemma striped_result:
  assumes "info \<noteq> []" "\<forall>i<length info. 0 \<le> info ! i" "k \<le> total_units info"
  shows "\<exists>info' g' res' c'. spread_inv info info' g' res' c'
           \<and> total_units info' + k = total_units info
           \<and> (\<forall>m. striped_loop (k + m) info 0 0 = striped_loop m info' g' res')"
  using striped_run [OF inv_init [OF assms(1,2)] assms(3)] .

subsection \<open>The striped allocator\<close>

text \<open>
  C1, for a topology in which no unit belongs to two groups. From a non-empty list of
  non-negative group masks that share no bit and hold at least \<open>n\<close> units, the striped
  allocator returns the complement \<open>r\<close> of a set of exactly \<open>n\<close> units, all of them units of
  the groups. No group is assigned more than one unit more than another group that still
  has units left; of two groups, the later one is never ahead of an earlier one that has
  units left; and within a group a unit is selected only if every lower unit of the group
  is.
\<close>

theorem striped_even_spread:
  assumes "get_gpc_info pys dev = Inr info" "info \<noteq> []"
    and "\<forall>i<length info. 0 \<le> info ! i" "disjoint_groups info"
    and "0 \<le> n" "n \<le> int (total_units info)"
  shows "\<exists>r. get_cu_mask pys n t True dev = Some (Inr r)
      \<and> bit_count (nat (NOT r)) = nat n
      \<and> (\<forall>k. bit (NOT r) k \<longrightarrow> (\<exists>i<length info. bit (info ! i) k))
      \<and> (\<forall>i<length info. \<forall>j<length info.
            assigned r (info ! i) \<le> assigned r (info ! j) + 1
            \<or> assigned r (info ! j) = bit_count (nat (info ! j)))
      \<and> (\<forall>i<length info. \<forall>j<i.
            assigned r (info ! j) < bit_count (nat (info ! j))
            \<longrightarrow> assigned r (info ! i) \<le> assigned r (info ! j))
      \<and> (\<forall>i<length info. \<forall>p q.
            bit (info ! i) p \<and> bit (info ! i) q \<and> p < q \<and> bit (NOT r) q \<longrightarrow> bit (NOT r) p)"
proof -
  have k: "nat n \<le> total_units info" using assms(5,6) by simp
  from striped_result [OF assms(2,3) k] obtain info' g' res' c' where
    inv: "spread_inv info info' g' res' c'"
    and tot: "total_units info' + nat n = total_units info"
    and run: "\<forall>m. striped_loop (nat n + m) info 0 0 = striped_loop m info' g' res'"
    by blast
  have u: "units_inv info info' res'" and r: "round_inv info info' g' c'"
    using inv by (simp_all add: spread_inv_def)
  have "striped_loop (nat n) info 0 0 = Some (Inr (res', info'))"
    using run [rule_format, of 0] by simp
  then have g: "get_cu_mask pys n t True dev = Some (Inr (NOT res'))"
    using assms(1) by (simp add: get_cu_mask_def)
  have sz: "\<And>j. j < length info \<Longrightarrow> bit_count (nat (info ! j)) = card (unit_set (info ! j))"
    using assms(3) by (simp add: bit_count_card)
  have asg: "\<And>i. i < length info \<Longrightarrow> assigned (NOT res') (info ! i) = card (taken info info' i)"
    by (rule assigned_taken [OF u assms(4)])
  have a: "bit_count (nat (NOT (NOT res'))) = nat n"
    using selected_count [OF u assms(4) tot] by simp
  have b: "\<forall>k. bit (NOT (NOT res')) k \<longrightarrow> (\<exists>i<length info. bit (info ! i) k)"
  proof (intro allI impI)
    fix k assume "bit (NOT (NOT res')) k"
    then have "k \<in> unit_set res'" by (simp add: unit_set_def)
    then obtain i where "i < length info" "k \<in> taken info info' i"
      using u by (auto simp: units_inv_def)
    then show "\<exists>i<length info. bit (info ! i) k" by (auto simp: taken_def unit_set_def)
  qed
  have c: "\<forall>i<length info. \<forall>j<length info.
            assigned (NOT res') (info ! i) \<le> assigned (NOT res') (info ! j) + 1
            \<or> assigned (NOT res') (info ! j) = bit_count (nat (info ! j))"
    using round_spread [OF r] by (simp add: asg sz)
  have d: "\<forall>i<length info. \<forall>j<i.
            assigned (NOT res') (info ! j) < bit_count (nat (info ! j))
            \<longrightarrow> assigned (NOT res') (info ! i) \<le> assigned (NOT res') (info ! j)"
  proof (intro allI impI)
    fix i j assume i: "i < length info" and j: "j < i"
      and lt: "assigned (NOT res') (info ! j) < bit_count (nat (info ! j))"
    have jl: "j < length info" using i j by simp
    from lt have "card (taken info info' j) < card (unit_set (info ! j))"
      by (simp add: asg [OF jl] sz [OF jl])
    from round_ties [OF r i j this]
    show "assigned (NOT res') (info ! i) \<le> assigned (NOT res') (info ! j)"
      by (simp add: asg [OF i] asg [OF jl])
  qed
  have e: "\<forall>i<length info. \<forall>p q.
            bit (info ! i) p \<and> bit (info ! i) q \<and> p < q \<and> bit (NOT (NOT res')) q
            \<longrightarrow> bit (NOT (NOT res')) p"
    using lowest_first [OF u assms(4)] by auto
  show ?thesis using g a b c d e by blast
qed

lemma eval_3_12:
  "get_cu_mask \<lparr>get_gpc_info = (\<lambda>d. Inr [3, 12]), get_tpc_info = (\<lambda>d. Inr 4)\<rparr> 3 4 True 0
     = Some (Inr (- 8))"
  by code_simp

lemma eval_total_3_12: "total_units [3, 12] = 4"
  by code_simp

theorem striped_even_spread_witness:
  "get_cu_mask \<lparr>get_gpc_info = (\<lambda>d. Inr [3, 12]), get_tpc_info = (\<lambda>d. Inr 4)\<rparr> 3 4 True 0
     = Some (Inr (- 8))
   \<and> bit_count (nat (NOT (- 8))) = 3
   \<and> assigned (- 8) 3 \<le> assigned (- 8) 12 + 1"
proof -
  let ?P = "\<lparr>get_gpc_info = (\<lambda>d. Inr [3, 12]), get_tpc_info = (\<lambda>d. Inr 4)\<rparr>"
  have h1: "get_gpc_info ?P 0 = Inr [3, 12]" by simp
  have h2: "[3, 12 :: int] \<noteq> []" by simp
  have h3: "\<forall>i<length [3, 12 :: int]. 0 \<le> [3, 12 :: int] ! i"
    by (auto simp: nth_Cons split: nat.splits)
  have h4: "disjoint_groups [3, 12]" by (simp add: disjoint_groups_def)
  have h5: "(0 :: int) \<le> 3" by simp
  have h6: "(3 :: int) \<le> int (total_units [3, 12])" by (simp add: eval_total_3_12)
  from striped_even_spread [OF h1 h2 h3 h4 h5 h6, of 4] obtain r where
    r: "get_cu_mask ?P 3 4 True 0 = Some (Inr r)" "bit_count (nat (NOT r)) = nat 3"
       "\<forall>i<length [3, 12 :: int]. \<forall>j<length [3, 12 :: int].
            assigned r ([3, 12] ! i) \<le> assigned r ([3, 12] ! j) + 1
            \<or> assigned r ([3, 12] ! j) = bit_count (nat ([3, 12] ! j))"
    by blast
  from r(1) eval_3_12 have e: "r = - 8" by simp
  have "assigned (- 8) 12 \<noteq> bit_count (nat 12)" by code_simp
  moreover have "assigned r ([3, 12] ! 0) \<le> assigned r ([3, 12] ! 1) + 1
            \<or> assigned r ([3, 12] ! 1) = bit_count (nat ([3, 12] ! 1))"
    using r(3) [rule_format, of 0 1] by simp
  ultimately have "assigned (- 8) 3 \<le> assigned (- 8) 12 + 1" using e by simp
  with r(1,2) e show ?thesis by simp
qed

text \<open>
  C1, as the claim states it, fails for a list of group masks that share a unit: the two
  groups of \<open>[1, 1]\<close> hold two set bits in all, two units are asked for, and the
  allocator returns the complement of a set with one unit.
\<close>

theorem striped_overlap_counterexample:
  "get_cu_mask \<lparr>get_gpc_info = (\<lambda>d. Inr [1, 1]), get_tpc_info = (\<lambda>d. Inr 2)\<rparr> 2 2 True 0
     = Some (Inr (- 2))
   \<and> total_units [1, 1] = 2
   \<and> bit_count (nat (NOT (- 2))) = 1"
  by code_simp

lemma scan_gpcs_Some_nonzero:
  assumes "scan_gpcs info g = Some y"
  shows "length info \<le> g \<or> (\<exists>i<length info. info ! i \<noteq> 0)"
proof (rule scan_gpcs.raw_induct
         [where P = "\<lambda>info g y. length info \<le> g \<or> (\<exists>i<length info. info ! i \<noteq> 0)",
          OF _ assms])
  fix scan :: "int list \<Rightarrow> nat \<Rightarrow> (py_error + int \<times> nat) option"
    and info :: "int list" and g :: nat and y :: "py_error + int \<times> nat"
  assume ih: "\<And>info g y. scan info g = Some y
                \<Longrightarrow> length info \<le> g \<or> (\<exists>i<length info. info ! i \<noteq> 0)"
    and eq: "(if length info \<le> g then Some (Inl IndexError)
              else let mask = info ! g; next_bit = mask AND - mask;
                       next_gpc' = (g + 1) mod length info
                   in if next_bit = 0 then scan info next_gpc'
                      else Some (Inr (next_bit, next_gpc'))) = Some y"
  show "length info \<le> g \<or> (\<exists>i<length info. info ! i \<noteq> 0)"
  proof (cases "length info \<le> g")
    case True
    then show ?thesis by simp
  next
    case False
    show ?thesis
    proof (cases "info ! g = 0")
      case True
      with False eq have "scan info ((g + 1) mod length info) = Some y"
        by (simp add: Let_def)
      moreover have "(g + 1) mod length info < length info"
        by (rule mod_less_divisor) (use False in auto)
      ultimately show ?thesis using ih [of info "(g + 1) mod length info" y] by auto
    next
      case False
      moreover have "g < length info" using \<open>\<not> length info \<le> g\<close> by simp
      ultimately show ?thesis by blast
    qed
  qed
qed

lemma scan_gpcs_zeros:
  "g < length info \<Longrightarrow> \<forall>i<length info. info ! i = 0 \<Longrightarrow> scan_gpcs info g = None"
  using scan_gpcs_Some_nonzero [of info g] by (cases "scan_gpcs info g") auto

lemma total_zero_all_zero:
  assumes "total_units info = 0" "\<forall>i<length info. 0 \<le> info ! i"
  shows "\<forall>i<length info. info ! i = 0"
proof (intro allI impI)
  fix i assume i: "i < length info"
  have "(\<Sum>i<length info. card (unit_set (info ! i))) = 0"
    using total_units_nth [OF assms(2)] assms(1) by simp
  then have "card (unit_set (info ! i)) = 0" using i by simp
  moreover have "finite (unit_set (info ! i))" using assms(2) i by (simp add: finite_unit_set)
  ultimately have "unit_set (info ! i) = {}" by simp
  then show "info ! i = 0" by (simp add: unit_set_empty_iff)
qed

lemma striped_insufficient:
  assumes "get_gpc_info pys dev = Inr info" "info \<noteq> []"
    and "\<forall>i<length info. 0 \<le> info ! i" "int (total_units info) < n"
  shows "get_cu_mask pys n t True dev = None"
proof -
  from striped_result [OF assms(2,3) le_refl] obtain info' g' res' c' where
    inv: "spread_inv info info' g' res' c'"
    and tot: "total_units info' + total_units info = total_units info"
    and run: "\<forall>m. striped_loop (total_units info + m) info 0 0 = striped_loop m info' g' res'"
    by blast
  have u: "units_inv info info' res'" and r: "round_inv info info' g' c'"
    using inv by (simp_all add: spread_inv_def)
  have len: "length info' = length info" using u by (simp add: units_inv_def)
  have g': "g' < length info'" using r len by (simp add: round_inv_def)
  have nn: "\<forall>i<length info'. 0 \<le> info' ! i" using u len by (simp add: units_inv_def)
  have "total_units info' = 0" using tot by simp
  from total_zero_all_zero [OF this nn] have "scan_gpcs info' g' = None"
    using g' by (intro scan_gpcs_zeros)
  then have stuck: "\<And>m. striped_loop (Suc m) info' g' res' = None" by simp
  obtain m where m: "nat n = total_units info + Suc m"
    using assms(4) by (metis add_Suc_right less_imp_Suc_add zless_nat_eq_int_zless)
  have "striped_loop (nat n) info 0 0 = None"
    using run [rule_format, of "Suc m"] stuck m by simp
  then show ?thesis using assms(1) by (simp add: get_cu_mask_def)
qed

lemma eval_total_15_240: "total_units [15, 240] = 8"
  by code_simp

text \<open>
  C2 at ten units asked of a topology that holds eight: the allocation never returns.
  It raises nothing; the sweep step that made the call stays in it, so no runner is
  started for that step.
\<close>

theorem insufficient_units_never_returns:
  "get_cu_mask \<lparr>get_gpc_info = (\<lambda>d. Inr [15, 240]), get_tpc_info = (\<lambda>d. Inr 8)\<rparr> 10 10 True 0
     = None
   \<and> calls (fst (sweep \<lparr>get_gpc_info = (\<lambda>d. Inr [15, 240]), get_tpc_info = (\<lambda>d. Inr 8)\<rparr>
                        (\<lambda>c. Inr 0)
                        \<lparr>cu_count = Some 10, start_count = 9, stripe = True, device = 0\<rparr>
                        10 \<lparr>global_cu_mask = None\<rparr> [9])) = [Alloc 10]
   \<and> snd (sweep \<lparr>get_gpc_info = (\<lambda>d. Inr [15, 240]), get_tpc_info = (\<lambda>d. Inr 8)\<rparr>
                 (\<lambda>c. Inr 0)
                 \<lparr>cu_count = Some 10, start_count = 9, stripe = True, device = 0\<rparr>
                 10 \<lparr>global_cu_mask = None\<rparr> [9]) = Never_returns"
proof -
  let ?P = "\<lparr>get_gpc_info = (\<lambda>d. Inr [15, 240]), get_tpc_info = (\<lambda>d. Inr 8)\<rparr>"
  have h3: "\<forall>i<length [15, 240 :: int]. 0 \<le> [15, 240 :: int] ! i"
    by (auto simp: nth_Cons split: nat.splits)
  have n: "get_cu_mask ?P 10 10 True 0 = None"
    by (rule striped_insufficient [of _ _ "[15, 240]"]) (simp_all add: h3 eval_total_15_240)
  then have n': "get_cu_mask ?P (9 + 1) 10 True 0 = None" by simp
  show ?thesis using n by (simp add: n' calls_def)
qed

lemma striped_loop_st_outcome:
  "map_option fst (striped_loop_st b a g res s)
     = map_option (map_sum id fst) (striped_loop b (objects s a) g res)"
proof (induction b arbitrary: g res s)
  case 0
  show ?case by simp
next
  case (Suc b)
  show ?case
  proof (cases "scan_gpcs (objects s a) g")
    case None
    then show ?thesis by simp
  next
    case (Some y)
    show ?thesis
    proof (cases y)
      case (Inl e)
      with Some show ?thesis by simp
    next
      case (Inr bg)
      obtain nb g1 where bg: "bg = (nb, g1)" by (cases bg)
      show ?thesis
      proof (cases "py_index (objects s a) (int g1 - 1)")
        case None
        with Some Inr bg show ?thesis by simp
      next
        case (Some i)
        with \<open>scan_gpcs (objects s a) g = Some y\<close> Inr bg show ?thesis
          using Suc.IH [of g1 "res OR nb"
                  "s\<lparr>objects := (objects s)(a := (objects s a)[i := objects s a ! i - nb])\<rparr>"]
          by simp
      qed
    qed
  qed
qed

lemma striped_loop_st_returns:
  "striped_loop b (objects s a) g res = Some (Inr (res', info')) \<Longrightarrow>
   \<exists>s'. striped_loop_st b a g res s = Some (Inr res', s') \<and> objects s' a = info'
        \<and> (\<forall>a'. a' \<noteq> a \<longrightarrow> objects s' a' = objects s a') \<and> next_free s' = next_free s"
proof (induction b arbitrary: g res s)
  case 0
  then show ?case by auto
next
  case (Suc b)
  from Suc.prems obtain y where y: "scan_gpcs (objects s a) g = Some y"
    by (cases "scan_gpcs (objects s a) g") auto
  from Suc.prems y obtain nb g1 where yb: "y = Inr (nb, g1)" by (cases y) auto
  from Suc.prems y yb obtain i where i: "py_index (objects s a) (int g1 - 1) = Some i"
    by (cases "py_index (objects s a) (int g1 - 1)") auto
  let ?s1 = "s\<lparr>objects := (objects s)(a := (objects s a)[i := objects s a ! i - nb])\<rparr>"
  have "striped_loop b (objects ?s1 a) g1 (res OR nb) = Some (Inr (res', info'))"
    using Suc.prems y yb i by simp
  from Suc.IH [OF this] obtain s' where
    s': "striped_loop_st b a g1 (res OR nb) ?s1 = Some (Inr res', s')" "objects s' a = info'"
        "\<forall>a'. a' \<noteq> a \<longrightarrow> objects s' a' = objects ?s1 a'" "next_free s' = next_free ?s1"
    by blast
  have "striped_loop_st (Suc b) a g res s = Some (Inr res', s')" using y yb i s'(1) by simp
  then show ?case using s'(2-4) by auto
qed

lemma get_cu_mask_st_outcome:
  "map_option fst (get_cu_mask_st pys n t striped dev s) = get_cu_mask pys n t striped dev"
proof (cases striped)
  case False
  then show ?thesis by (simp add: get_cu_mask_st_def get_cu_mask_def)
next
  case True
  show ?thesis
  proof (cases "get_gpc_info pys dev")
    case (Inl e)
    with True show ?thesis by (simp add: get_cu_mask_st_def get_cu_mask_def)
  next
    case (Inr xs)
    let ?s1 = "s\<lparr>objects := (objects s)(next_free s := xs), next_free := Suc (next_free s)\<rparr>"
    have o: "map_option fst (striped_loop_st (nat n) (next_free s) 0 0 ?s1)
               = map_option (map_sum id fst) (striped_loop (nat n) xs 0 0)"
      using striped_loop_st_outcome [of "nat n" "next_free s" 0 0 ?s1] by simp
    show ?thesis
    proof (cases "striped_loop (nat n) xs 0 0")
      case None
      with o have "striped_loop_st (nat n) (next_free s) 0 0 ?s1 = None" by simp
      with None True Inr show ?thesis
        by (simp add: get_cu_mask_st_def get_cu_mask_def new_list_def)
    next
      case (Some y)
      with o obtain z where z: "striped_loop_st (nat n) (next_free s) 0 0 ?s1 = Some z"
        "fst z = map_sum id fst y" by auto
      obtain out s2 where zs: "z = (out, s2)" by (cases z)
      show ?thesis
      proof (cases y)
        case (Inl e)
        with z zs Some True Inr show ?thesis
          by (simp add: get_cu_mask_st_def get_cu_mask_def new_list_def)
      next
        case (Inr ri)
        obtain r i where "ri = (r, i)" by (cases ri)
        with Inr z zs Some True \<open>get_gpc_info pys dev = Inr xs\<close> show ?thesis
          by (simp add: get_cu_mask_st_def get_cu_mask_def new_list_def)
      qed
    qed
  qed
qed

text \<open>
  C7. Two striped allocations in a row, the second on the store the first one left, each
  on the new list its own topology query returns: when the two queries return the same
  list, the second call ends as the first did, with the same mask when the first returned
  one. When the topology holds enough units both calls do return a mask, the same one,
  although the first call has taken its \<open>n\<close> units out of its own list, which is still
  in the store.
\<close>

theorem striped_deterministic:
  assumes "get_gpc_info pys' dev' = get_gpc_info pys dev"
  shows "(get_cu_mask_st pys n t True dev s = Some (out, s1) \<longrightarrow>
            (\<exists>s2. get_cu_mask_st pys' n t' True dev' s1 = Some (out, s2)))
       \<and> (get_gpc_info pys dev = Inr info \<and> info \<noteq> [] \<and> (\<forall>i<length info. 0 \<le> info ! i)
            \<and> 0 \<le> n \<and> n \<le> int (total_units info) \<longrightarrow>
            (\<exists>r s1 s2. get_cu_mask_st pys n t True dev s = Some (Inr r, s1)
                \<and> get_cu_mask_st pys' n t' True dev' s1 = Some (Inr r, s2)
                \<and> total_units (objects s1 (next_free s)) + nat n = total_units info
                \<and> objects s2 (next_free s) = objects s1 (next_free s)))"
proof (intro conjI impI)
  have same: "get_cu_mask pys' n t' True dev' = get_cu_mask pys n t True dev"
    using assms by (simp add: get_cu_mask_def)
  {
    fix out s1
    assume c1: "get_cu_mask_st pys n t True dev s = Some (out, s1)"
    have "get_cu_mask pys n t True dev = Some out"
      using get_cu_mask_st_outcome [of pys n t True dev s] c1 by simp
    then have "map_option fst (get_cu_mask_st pys' n t' True dev' s1) = Some out"
      using get_cu_mask_st_outcome [of pys' n t' True dev' s1] same by simp
    then have "\<exists>s2. get_cu_mask_st pys' n t' True dev' s1 = Some (out, s2)" by auto
  } note again = this
  {
    assume c1: "get_cu_mask_st pys n t True dev s = Some (out, s1)"
    show "\<exists>s2. get_cu_mask_st pys' n t' True dev' s1 = Some (out, s2)"
      using again [OF c1] .
  }
  {
    assume h: "get_gpc_info pys dev = Inr info \<and> info \<noteq> [] \<and> (\<forall>i<length info. 0 \<le> info ! i)
            \<and> 0 \<le> n \<and> n \<le> int (total_units info)"
    then have "0 \<le> n" and "n \<le> int (total_units info)" by blast+
    then have k: "nat n \<le> total_units info" by linarith
    from h have ne: "info \<noteq> []" and nn: "\<forall>i<length info. 0 \<le> info ! i" by blast+
    from striped_result [OF ne nn k] obtain info' g' res' c' where
      tot: "total_units info' + nat n = total_units info"
      and run: "\<forall>m. striped_loop (nat n + m) info 0 0 = striped_loop m info' g' res'"
      by blast
    have lp: "striped_loop (nat n) info 0 0 = Some (Inr (res', info'))"
      using run [rule_format, of 0] by simp
    let ?a = "next_free s"
    let ?s0 = "s\<lparr>objects := (objects s)(?a := info), next_free := Suc ?a\<rparr>"
    have "striped_loop (nat n) (objects ?s0 ?a) 0 0 = Some (Inr (res', info'))" using lp by simp
    from striped_loop_st_returns [OF this] obtain s1 where
      s1: "striped_loop_st (nat n) ?a 0 0 ?s0 = Some (Inr res', s1)" "objects s1 ?a = info'"
          "next_free s1 = next_free ?s0"
      by blast
    have c1: "get_cu_mask_st pys n t True dev s = Some (Inr (NOT res'), s1)"
      using h s1(1) by (simp add: get_cu_mask_st_def new_list_def)
    from again [OF c1] obtain s2 where
      c2: "get_cu_mask_st pys' n t' True dev' s1 = Some (Inr (NOT res'), s2)" by blast
    let ?b = "next_free s1"
    let ?t0 = "s1\<lparr>objects := (objects s1)(?b := info), next_free := Suc ?b\<rparr>"
    have "striped_loop (nat n) (objects ?t0 ?b) 0 0 = Some (Inr (res', info'))" using lp by simp
    from striped_loop_st_returns [OF this] obtain s2' where
      s2': "striped_loop_st (nat n) ?b 0 0 ?t0 = Some (Inr res', s2')"
           "\<forall>a'. a' \<noteq> ?b \<longrightarrow> objects s2' a' = objects ?t0 a'"
      by blast
    have "get_cu_mask_st pys' n t' True dev' s1 = Some (Inr (NOT res'), s2')"
      using h assms s2'(1) by (simp add: get_cu_mask_st_def new_list_def)
    with c2 have "s2 = s2'" by simp
    moreover have "?a \<noteq> ?b" using s1(3) by simp
    ultimately have keep: "objects s2 ?a = objects s1 ?a" using s2'(2) by simp
    show "\<exists>r s1 s2. get_cu_mask_st pys n t True dev s = Some (Inr r, s1)
                \<and> get_cu_mask_st pys' n t' True dev' s1 = Some (Inr r, s2)
                \<and> total_units (objects s1 (next_free s)) + nat n = total_units info
                \<and> objects s2 (next_free s) = objects s1 (next_free s)"
      using c1 c2 s1(2) tot keep by blast
  }
qed

lemma eval_store_call:
  "get_cu_mask_st \<lparr>get_gpc_info = (\<lambda>d. Inr [3, 12]), get_tpc_info = (\<lambda>d. Inr 4)\<rparr> 1 4 True 0
       \<lparr>objects = (\<lambda>a. []), next_free = 0\<rparr>
     = Some (Inr (- 2), \<lparr>objects = (\<lambda>a. [])(0 := [2, 12]), next_free = Suc 0\<rparr>)"
  by (simp add: get_cu_mask_st_def new_list_def scan_gpcs.simps py_index_def)

theorem striped_deterministic_witness:
  "map_option fst
     (get_cu_mask_st \<lparr>get_gpc_info = (\<lambda>d. Inr [3, 12]), get_tpc_info = (\<lambda>d. Inr 4)\<rparr> 1 4 True 0
        \<lparr>objects = (\<lambda>a. []), next_free = 0\<rparr>) = Some (Inr (- 2))
   \<and> map_option fst
     (get_cu_mask_st \<lparr>get_gpc_info = (\<lambda>d. if d = 1 then Inr [3, 12] else Inl OSError),
                      get_tpc_info = (\<lambda>d. Inr 64)\<rparr> 1 64 True 1
        \<lparr>objects = (\<lambda>a. [])(0 := [2, 12]), next_free = Suc 0\<rparr>) = Some (Inr (- 2))"
proof -
  let ?P = "\<lparr>get_gpc_info = (\<lambda>d. Inr [3, 12]), get_tpc_info = (\<lambda>d. Inr 4)\<rparr>"
  let ?P' = "\<lparr>get_gpc_info = (\<lambda>d. if d = 1 then Inr [3, 12] else Inl OSError),
              get_tpc_info = (\<lambda>d. Inr 64)\<rparr>"
  let ?S0 = "\<lparr>objects = (\<lambda>a. []), next_free = 0\<rparr>"
  let ?S1 = "\<lparr>objects = (\<lambda>a. [])(0 := [2, 12]), next_free = Suc 0\<rparr>"
  have h: "get_gpc_info ?P' 1 = get_gpc_info ?P 0" by simp
  from striped_deterministic [OF h, of 1 4 ?S0 "Inr (- 2)" ?S1 64] eval_store_call
  obtain s2 where "get_cu_mask_st ?P' 1 64 True 1 ?S1 = Some (Inr (- 2), s2)" by blast
  then show ?thesis by (simp add: eval_store_call)
qed

text \<open>
  The new list matters. The first call above leaves its list as \<open>[2, 12]\<close>; the loop run
  once more on that same list takes unit 1, where a call on a new list takes unit 0.
\<close>

lemma used_list_differs:
  "map_option fst
     (striped_loop_st 1 0 0 0 \<lparr>objects = (\<lambda>a. [])(0 := [2, 12]), next_free = Suc 0\<rparr>)
     = Some (Inr 2)
   \<and> map_option fst
     (striped_loop_st 1 0 0 0 \<lparr>objects = (\<lambda>a. [])(0 := [3, 12]), next_free = Suc 0\<rparr>)
     = Some (Inr 1)"
  by (simp add: scan_gpcs.simps py_index_def)

subsection \<open>The configuration of an allocated mask\<close>

lemma scan_gpcs_bit:
  assumes "scan_gpcs info g = Some y"
  shows "\<forall>b g'. y = Inr (b, g') \<longrightarrow> 0 \<le> b"
proof (rule scan_gpcs.raw_induct
         [where P = "\<lambda>info g y. \<forall>b g'. y = Inr (b, g') \<longrightarrow> 0 \<le> b", OF _ assms])
  fix scan :: "int list \<Rightarrow> nat \<Rightarrow> (py_error + int \<times> nat) option"
    and info :: "int list" and g :: nat and y :: "py_error + int \<times> nat"
  assume ih: "\<And>info g y. scan info g = Some y \<Longrightarrow> \<forall>b g'. y = Inr (b, g') \<longrightarrow> 0 \<le> b"
    and eq: "(if length info \<le> g then Some (Inl IndexError)
              else let mask = info ! g; next_bit = mask AND - mask;
                       next_gpc' = (g + 1) mod length info
                   in if next_bit = 0 then scan info next_gpc'
                      else Some (Inr (next_bit, next_gpc'))) = Some y"
  show "\<forall>b g'. y = Inr (b, g') \<longrightarrow> 0 \<le> b"
  proof (cases "length info \<le> g")
    case True
    with eq show ?thesis by auto
  next
    case False
    show ?thesis
    proof (cases "info ! g AND - (info ! g) = 0")
      case True
      with False eq have "scan info ((g + 1) mod length info) = Some y"
        by (simp add: Let_def)
      then show ?thesis by (rule ih)
    next
      case nz: False
      with False eq have "y = Inr (info ! g AND - (info ! g), (g + 1) mod length info)"
        by (simp add: Let_def)
      then show ?thesis using lowbit_nonneg [of "info ! g"] by simp
    qed
  qed
qed

lemma striped_loop_nonneg:
  "striped_loop b info g res = Some (Inr (res', info')) \<Longrightarrow> 0 \<le> res \<Longrightarrow> 0 \<le> res'"
proof (induction b arbitrary: info g res)
  case 0
  then show ?case by simp
next
  case (Suc b)
  from Suc.prems(1) obtain y where y: "scan_gpcs info g = Some y"
    by (cases "scan_gpcs info g") auto
  from Suc.prems(1) y obtain nb g1 where yb: "y = Inr (nb, g1)"
    by (cases y) auto
  from scan_gpcs_bit [OF y] yb have nb: "0 \<le> nb" by simp
  from Suc.prems(1) y yb obtain i where
    "striped_loop b (info[i := info ! i - nb]) g1 (res OR nb) = Some (Inr (res', info'))"
    by (cases "py_index info (int g1 - 1)") auto
  from Suc.IH [OF this] nb Suc.prems(2) show ?case by simp
qed

lemma allocated_complement_nonneg:
  assumes "get_cu_mask pys n t striped dev = Some (Inr m)"
  shows "0 \<le> NOT m"
proof (cases striped)
  case False
  then have "m = NOT (mask (nat n))" using assms by (simp add: get_cu_mask_contiguous)
  then show ?thesis by simp
next
  case True
  with assms obtain info where i: "get_gpc_info pys dev = Inr info"
    by (cases "get_gpc_info pys dev") (auto simp: get_cu_mask_def)
  with True assms obtain res info' where
    "striped_loop (nat n) info 0 0 = Some (Inr (res, info'))" "m = NOT res"
    by (auto simp: get_cu_mask_def split: option.splits sum.splits)
  then show ?thesis using striped_loop_nonneg [of "nat n" info 0 0 res info'] by simp
qed

lemma count_to_bin: "count (to_bin n) CHR ''1'' = bit_count n"
proof (induction n rule: to_bin.induct)
  case (1 n)
  show ?case
  proof (cases "n < 2")
    case True
    have t0: "to_bin 0 = ''0''" and t1: "to_bin (Suc 0) = ''1''"
      by (subst to_bin.simps, simp)+
    have b1: "bit_count (Suc 0) = 1" by (subst bit_count.simps) (simp add: bit_count_0)
    from True have "n = 0 \<or> n = 1" by auto
    then show ?thesis
    proof
      assume "n = 0"
      then show ?thesis by (simp add: t0 count_def bit_count_0)
    next
      assume "n = 1"
      then show ?thesis by (simp add: t1 count_def b1)
    qed
  next
    case False
    have d: "count [''01'' ! (n mod 2)] CHR ''1'' = n mod 2"
    proof -
      have "n mod 2 = 0 \<or> n mod 2 = 1" by auto
      then show ?thesis by (auto simp: count_def)
    qed
    have "count (to_bin n) CHR ''1'' = count (to_bin (n div 2)) CHR ''1'' + count [''01'' ! (n mod 2)] CHR ''1''"
      using False by (subst to_bin.simps) (simp add: count_def)
    then show ?thesis using 1 [OF False] d False by (subst bit_count.simps) simp
  qed
qed

lemma count_bin: "0 \<le> v \<Longrightarrow> count (bin v) CHR ''1'' = bit_count (nat v)"
proof -
  assume "0 \<le> v"
  then have "bin v = ''0b'' @ to_bin (nat v)" by (simp add: bin_def)
  moreover have "count (''0b'' @ to_bin (nat v)) CHR ''1'' = count (to_bin (nat v)) CHR ''1''"
    by (simp add: count_def)
  ultimately show ?thesis by (simp add: count_to_bin)
qed

text \<open>
  C5. For every mask \<open>m\<close> that the allocator returns, the configuration has exactly one
  benchmark entry. Its \<open>sm_mask\<close> is the encoding of \<open>m\<close>: 16 hexadecimal digits that read
  back as \<open>m\<close> truncated to 64 bits. Its label is the decimal string of the number of set
  bits of the complement of \<open>m\<close>, counted from the mask and not taken from the count that
  was asked for. Its log name is \<open>cu_mask_\<close>, then \<open>striped_\<close> exactly when striping was
  used, then the encoding, then \<open>.json\<close>.
\<close>

theorem config_of_allocated_mask:
  assumes "get_cu_mask pys n t striped dev = Some (Inr m)"
  shows "\<exists>p. benchmarks (generate_config m striped) = [p]
       \<and> sm_mask p = cu_mask_to_hex_string m
       \<and> length (sm_mask p) = 16
       \<and> from_hex (sm_mask p) = Some (nat (m mod 2 ^ 64))
       \<and> label p = str (int (bit_count (nat (NOT m))))
       \<and> log_name p = ''cu_mask_'' @ (if striped then ''striped_'' else []) @ sm_mask p @ ''.json''"
proof -
  have c: "count (bin (NOT m)) CHR ''1'' = bit_count (nat (NOT m))"
    using allocated_complement_nonneg [OF assms] by (rule count_bin)
  show ?thesis
    by (simp add: generate_config_def Let_def c hex_string_facts)
qed

lemma eval_label_8: "str (int (bit_count 7)) = ''3''"
  by code_simp

theorem config_of_allocated_mask_witness:
  "map label (benchmarks (generate_config (- 8) True)) = [''3'']
   \<and> map sm_mask (benchmarks (generate_config (- 8) True)) = [''fffffffffffffff8'']
   \<and> map log_name (benchmarks (generate_config (- 8) True))
       = [''cu_mask_striped_fffffffffffffff8.json'']"
proof -
  let ?P = "\<lparr>get_gpc_info = (\<lambda>d. Inr [3, 12]), get_tpc_info = (\<lambda>d. Inr 4)\<rparr>"
  have e: "cu_mask_to_hex_string (- 8) = ''fffffffffffffff8''"
    by (simp add: cu_mask_to_hex_string_def fmt_016x_def zero_pad_def to_hex.simps)
  from config_of_allocated_mask [OF eval_3_12] obtain p where
    p: "benchmarks (generate_config (- 8) True) = [p]"
       "sm_mask p = cu_mask_to_hex_string (- 8)"
       "label p = str (int (bit_count (nat (NOT (- 8)))))"
       "log_name p = ''cu_mask_'' @ (if True then ''striped_'' else []) @ sm_mask p @ ''.json''"
    by blast
  show ?thesis using p by (simp add: e eval_label_8)
qed

end
